theory Spec2Isabelle
  imports Main "HOL-Library.Sublist"
begin

section \<open>Data model of \<open>mhtmlBlobIndexer.ts\<close>\<close>

text \<open>
  JavaScript numbers that the indexer reads from its configuration
  (\<open>MAX_RETRIES\<close>, \<open>MAX_CONSECUTIVE_TIMEOUTS\<close>, \<open>CONCURRENCY\<close>) are modelled as
  \<open>int\<close>: they come out of \<open>parseInt\<close>, and may be zero or negative. The value
  \<open>NaN\<close> (a setting that is not a number) is outside this model. The counter
  \<open>consecutiveTimeouts\<close> starts at 0 and is only incremented or reset, so it is a \<open>nat\<close>.
  Strings are byte lists; the Japanese message texts of the source are given by their UTF-8 bytes.
\<close>

datatype source = Qast | Stock

record IndexingResult =
  success :: bool
  blobName :: string
  source :: source
  error :: "string option"
  statusCode :: "int option"

text \<open>
  What the code reads of a \<open>fetch\<close> response: \<open>response.ok\<close>, \<open>response.status\<close> and
  \<open>await response.text()\<close>, which either yields the body (\<open>Inr\<close>) or rejects with an
  error (\<open>Inl\<close>, the error as the template literal prints it).
\<close>

record response =
  ok :: bool
  status :: int
  responseText :: "string + string"

text \<open>
  How one iteration of the retry loop of \<open>indexMhtmlFile\<close> can go:
  \<^item> \<open>Responded\<close>: \<open>fetch\<close> resolved with a response;
  \<^item> \<open>AbortError\<close>: the timer fired, the controller aborted the call and \<open>fetch\<close> rejected
    with an \<open>Error\<close> named \<open>AbortError\<close>;
  \<^item> \<open>FetchFailed\<close>: \<open>fetch\<close> rejected with anything else (the argument is its message);
  \<^item> \<open>SetupThrew\<close>: an exception outside the inner \<open>try\<close>, caught by the outer \<open>catch\<close>.
\<close>

datatype attemptOutcome =
    Responded response
  | AbortError
  | FetchFailed string
  | SetupThrew string

subsection \<open>Printing numbers and the message texts\<close>

definition digit :: "nat \<Rightarrow> char" where
  "digit d = ''0123456789'' ! d"

fun showNat :: "nat \<Rightarrow> string" where
  "showNat n = (if n < 10 then [digit n] else showNat (n div 10) @ [digit (n mod 10)])"

declare showNat.simps [simp del]

definition showInt :: "int \<Rightarrow> string" where
  "showInt i = (if i < 0 then CHR ''-'' # showNat (nat (- i)) else showNat (nat i))"

text \<open>The text that follows \<open>${maxRetries}\<close> in the message of the final \<open>return\<close>
  (line 222), in UTF-8.\<close>

definition retriesExhaustedText :: string where
  "retriesExhaustedText =
     [CHR 0xE5, CHR 0x9B, CHR 0x9E, CHR 0xE3, CHR 0x81, CHR 0xAE, CHR 0xE3, CHR 0x83, CHR 0xAA,
      CHR 0xE3, CHR 0x83, CHR 0x88, CHR 0xE3, CHR 0x83, CHR 0xA9, CHR 0xE3, CHR 0x82, CHR 0xA4,
      CHR 0xE5, CHR 0xBE, CHR 0x8C, CHR 0xE3, CHR 0x82, CHR 0x82, CHR 0xE5, CHR 0xA4, CHR 0xB1,
      CHR 0xE6, CHR 0x95, CHR 0x97]"

text \<open>The prefix of the substitute error text when the body of a failed response cannot be
  read (line 168), in UTF-8.\<close>

definition readFailedText :: string where
  "readFailedText =
     [CHR 0xE3, CHR 0x83, CHR 0xAC, CHR 0xE3, CHR 0x82, CHR 0xB9, CHR 0xE3, CHR 0x83, CHR 0x9D,
      CHR 0xE3, CHR 0x83, CHR 0xB3, CHR 0xE3, CHR 0x82, CHR 0xB9, CHR 0xE8, CHR 0xAA, CHR 0xAD,
      CHR 0xE3, CHR 0x81, CHR 0xBF, CHR 0xE5, CHR 0x8F, CHR 0x96, CHR 0xE3, CHR 0x82, CHR 0x8A,
      CHR 0xE5, CHR 0xA4, CHR 0xB1, CHR 0xE6, CHR 0x95, CHR 0x97, CHR 0x3A, CHR 0x20]"

text \<open>\<open>String.prototype.includes\<close>: does \<open>s\<close> contain \<open>t\<close> as a contiguous piece?\<close>

fun includesText :: "string \<Rightarrow> string \<Rightarrow> bool" where
  "includesText [] t = (t = [])"
| "includesText (x # s) t = (take (length t) (x # s) = t \<or> includesText s t)"

section \<open>The submission client: \<open>indexMhtmlFile\<close>\<close>

text \<open>The \<open>errorText\<close> of the non-ok branch (lines 163 to 169).\<close>

definition errorText :: "response \<Rightarrow> string" where
  "errorText r = (case responseText r of Inr body \<Rightarrow> body | Inl e \<Rightarrow> readFailedText @ e)"

text \<open>The three results the function can return: lines 156 to 161, 173 to 179, 218 to 223.\<close>

definition okResult :: "string \<Rightarrow> source \<Rightarrow> response \<Rightarrow> IndexingResult" where
  "okResult name indexType r =
     \<lparr>success = True, blobName = name, source = indexType, error = None,
      statusCode = Some (status r)\<rparr>"

definition httpFailure :: "string \<Rightarrow> source \<Rightarrow> response \<Rightarrow> IndexingResult" where
  "httpFailure name indexType r =
     \<lparr>success = False, blobName = name, source = indexType,
      error = Some (''HTTP '' @ showInt (status r) @ '': '' @ errorText r),
      statusCode = Some (status r)\<rparr>"

definition retriesExhausted :: "string \<Rightarrow> source \<Rightarrow> int \<Rightarrow> IndexingResult" where
  "retriesExhausted name indexType maxRetries =
     \<lparr>success = False, blobName = name, source = indexType,
      error = Some (showInt maxRetries @ retriesExhaustedText),
      statusCode = None\<rparr>"

text \<open>
  What the body of the loop does once the attempt's outcome is known (lines 134 to 215):
  return a result, wait and \<open>continue\<close>, fall out of the \<open>try\<close> to the loop's increment
  without waiting, or \<open>process.exit(1)\<close>.
\<close>

datatype step = Return IndexingResult | Retry int | FallThrough | ProcessExit

text \<open>
  \<open>afterAttempt ceiling name indexType maxRetries attempt c out\<close> is the new value of
  \<open>consecutiveTimeouts\<close> (from \<open>c\<close>) and the step taken; \<open>ceiling\<close> is
  \<open>MAX_CONSECUTIVE_TIMEOUTS\<close>.
\<close>

fun afterAttempt ::
  "int \<Rightarrow> string \<Rightarrow> source \<Rightarrow> int \<Rightarrow> int \<Rightarrow> nat \<Rightarrow> attemptOutcome \<Rightarrow> nat \<times> step" where
  "afterAttempt ceiling name indexType maxRetries attempt c (Responded r) =
     (if ok r then (0, Return (okResult name indexType r))
      else (c, Return (httpFailure name indexType r)))"
| "afterAttempt ceiling name indexType maxRetries attempt c AbortError =
     (if int (c + 1) \<ge> ceiling then (c + 1, ProcessExit)
      else if attempt < maxRetries then (c + 1, Retry (2000 * attempt))
      else (c + 1, FallThrough))"
| "afterAttempt ceiling name indexType maxRetries attempt c (FetchFailed m) =
     (if attempt < maxRetries then (c, Retry (1000 * attempt)) else (c, FallThrough))"
| "afterAttempt ceiling name indexType maxRetries attempt c (SetupThrew e) =
     (if attempt < maxRetries then (c, Retry (1000 * attempt)) else (c, FallThrough))"

text \<open>
  One call of \<open>indexMhtmlFile\<close> with no other submission in flight. The endpoint is a
  script: \<open>script k\<close> is the outcome of attempt number \<open>k\<close>. The value is what the call
  comes to (\<open>Some\<close> result, or \<open>None\<close> when the process exited), the counter afterwards, and
  the trace of what was done: \<open>Try k\<close> for each attempt begun, \<open>Sleep ms\<close> for each backoff.
\<close>

datatype effect = Try int | Sleep int

function retryLoop ::
  "int \<Rightarrow> string \<Rightarrow> source \<Rightarrow> int \<Rightarrow> (int \<Rightarrow> attemptOutcome) \<Rightarrow> int \<Rightarrow> nat \<Rightarrow> effect list
     \<Rightarrow> IndexingResult option \<times> nat \<times> effect list" where
  "retryLoop ceiling name indexType maxRetries script attempt c tr =
     (if attempt \<le> maxRetries then
        (case afterAttempt ceiling name indexType maxRetries attempt c (script attempt) of
           (c', Return r) \<Rightarrow> (Some r, c', tr @ [Try attempt])
         | (c', Retry ms) \<Rightarrow>
             retryLoop ceiling name indexType maxRetries script (attempt + 1) c'
               (tr @ [Try attempt, Sleep ms])
         | (c', FallThrough) \<Rightarrow>
             retryLoop ceiling name indexType maxRetries script (attempt + 1) c'
               (tr @ [Try attempt])
         | (c', ProcessExit) \<Rightarrow> (None, c', tr @ [Try attempt]))
      else (Some (retriesExhausted name indexType maxRetries), c, tr))"
  by pat_completeness auto
termination
  by (relation "measure (\<lambda>(ceiling, name, indexType, maxRetries, script, attempt, c, tr).
        nat (maxRetries + 1 - attempt))") auto

declare retryLoop.simps [simp del]

definition indexMhtmlFile ::
  "int \<Rightarrow> nat \<Rightarrow> string \<Rightarrow> source \<Rightarrow> int \<Rightarrow> (int \<Rightarrow> attemptOutcome)
     \<Rightarrow> IndexingResult option \<times> nat \<times> effect list" where
  "indexMhtmlFile ceiling c name indexType maxRetries script =
     retryLoop ceiling name indexType maxRetries script 1 c []"

definition attempts :: "effect list \<Rightarrow> nat" where
  "attempts tr = length (filter (\<lambda>e. case e of Try k \<Rightarrow> True | Sleep ms \<Rightarrow> False) tr)"

section \<open>The batch orchestrator: \<open>indexSourceMhtmlFiles\<close>\<close>

text \<open>
  The indexer object: its blob service client and endpoint, given by what their calls
  come to, and its configuration.
  \<^item> \<open>getProperties\<close>: the connectivity test; \<open>Some e\<close> when it throws \<open>e\<close>.
  \<^item> \<open>listBlobsFlat container prefix\<close>: the names listed, or \<open>Inl e\<close> when the listing throws.
  \<^item> \<open>downloadBlob container name\<close>: \<open>None\<close> when the download yields a buffer,
    \<open>Some m\<close> when it throws an \<open>Error\<close> with message \<open>m\<close>.
  \<^item> \<open>fetch indexType name k\<close>: how attempt \<open>k\<close> of submitting blob \<open>name\<close> goes.
  \<^item> \<open>MAX_RETRIES\<close>: the default of the parameter \<open>maxRetries\<close>, which is what
    \<open>indexSourceMhtmlFiles\<close> calls \<open>indexMhtmlFile\<close> with.
  How long an operation or a wait lasts is not part of this model; the order in which the
  pending operations of a batch (timers, downloads, calls of \<open>fetch\<close>) complete is given by
  a schedule (see \<open>awaitAll\<close>).
\<close>

record indexer =
  getProperties :: "string option"
  listBlobsFlat :: "string \<Rightarrow> string \<Rightarrow> string + string list"
  downloadBlob :: "string \<Rightarrow> string \<Rightarrow> string option"
  fetch :: "source \<Rightarrow> string \<Rightarrow> int \<Rightarrow> attemptOutcome"
  MAX_CONSECUTIVE_TIMEOUTS :: int
  MAX_RETRIES :: int

text \<open>The counts of a report; its field \<open>success\<close> is \<open>success_count\<close> here, the name
  \<open>success\<close> being the flag of an \<open>IndexingResult\<close>.\<close>

record counts =
  total :: nat
  success_count :: nat
  failed :: nat

record report = counts +
  results :: "IndexingResult list"

text \<open>\<open>String.prototype.endsWith\<close> and \<open>Array.prototype.slice\<close> (with its rule for
  negative bounds).\<close>

definition endsWith :: "string \<Rightarrow> string \<Rightarrow> bool" where
  "endsWith s t = (length t \<le> length s \<and> drop (length s - length t) s = t)"

definition slice :: "'a list \<Rightarrow> int \<Rightarrow> int \<Rightarrow> 'a list" where
  "slice xs start end =
     (let n = int (length xs);
          k = (if start < 0 then max (n + start) 0 else min start n);
          final = (if end < 0 then max (n + end) 0 else min end n)
      in take (nat (final - k)) (drop (nat k) xs))"

text \<open>
  What is observed of a run: \<open>BatchStart\<close> when the loop has cut a batch, \<open>Began i\<close> when the
  callback of \<open>batch.map\<close> has started for the blob at index \<open>i\<close> of \<open>allBlobs\<close>,
  \<open>Attempt i k\<close> when iteration \<open>k\<close> of its retry loop begins, \<open>Ended i k outcome\<close> when that
  iteration's \<open>fetch\<close> is over and the code that follows it runs (from line 134 or from one
  of the two \<open>catch\<close>, where the source prints what has happened), \<open>Settled i\<close> when its
  promise is fulfilled.
\<close>

datatype event =
    BatchStart "string list"
  | Began int
  | Attempt int int
  | Ended int int attemptOutcome
  | Settled int

text \<open>
  A member of a batch is waiting for the end of its start delay (\<open>delayMs\<close>, for every
  member but the first), for its download, for the \<open>fetch\<close> of attempt \<open>k\<close>, or for the end
  of the backoff after attempt \<open>k\<close> (\<open>BackingOff k ms\<close>); or it has settled.
\<close>

datatype task = Pausing | Downloading | Attempting int | BackingOff int int | Done IndexingResult

fun isDone :: "task \<Rightarrow> bool" where
  "isDone (Done r) = True"
| "isDone t = False"

text \<open>The head of the retry loop (line 83): another attempt, or the final \<open>return\<close>.\<close>

definition loopHead :: "int \<Rightarrow> string \<Rightarrow> source \<Rightarrow> int \<Rightarrow> task" where
  "loopHead maxRetries name indexType attempt =
     (if attempt \<le> maxRetries then Attempting attempt
      else Done (retriesExhausted name indexType maxRetries))"

text \<open>
  The pending operation of a member completes, and its callback runs up to its next
  \<open>await\<close>: lines 306 to 309 for the start delay, lines 311 to 336 for the download, the
  body of the retry loop for an attempt and for a backoff.
  The value is the new counter and the new state of the member, \<open>None\<close> when the process
  has exited.
\<close>

fun taskStep ::
  "indexer \<Rightarrow> source \<Rightarrow> string \<Rightarrow> string \<Rightarrow> nat \<Rightarrow> task \<Rightarrow> nat \<times> task option" where
  "taskStep ix src container name c Pausing = (c, Some Downloading)"
| "taskStep ix src container name c Downloading =
     (case downloadBlob ix container name of
        Some message \<Rightarrow>
          (c, Some (Done \<lparr>success = False, blobName = name, source = src,
                           error = Some message, statusCode = None\<rparr>))
      | None \<Rightarrow> (c, Some (loopHead (MAX_RETRIES ix) name src 1)))"
| "taskStep ix src container name c (Attempting k) =
     (case afterAttempt (MAX_CONSECUTIVE_TIMEOUTS ix) name src (MAX_RETRIES ix) k c
             (fetch ix src name k) of
        (c', Return r) \<Rightarrow> (c', Some (Done r))
      | (c', Retry ms) \<Rightarrow> (c', Some (BackingOff k ms))
      | (c', FallThrough) \<Rightarrow> (c', Some (loopHead (MAX_RETRIES ix) name src (k + 1)))
      | (c', ProcessExit) \<Rightarrow> (c', None))"
| "taskStep ix src container name c (BackingOff k ms) =
     (c, Some (loopHead (MAX_RETRIES ix) name src (k + 1)))"
| "taskStep ix src container name c (Done r) = (c, Some (Done r))"

fun announce :: "int \<Rightarrow> task \<Rightarrow> event list" where
  "announce i (Attempting k) = [Attempt i k]"
| "announce i (Done r) = [Settled i]"
| "announce i t = []"

text \<open>What is observed when the pending operation of member \<open>i\<close> completes: the outcome
  of its attempt, when it was waiting for one.\<close>

fun observe :: "indexer \<Rightarrow> source \<Rightarrow> string \<Rightarrow> int \<Rightarrow> task \<Rightarrow> event list" where
  "observe ix src name i (Attempting k) = [Ended i k (fetch ix src name k)]"
| "observe ix src name i t = []"

text \<open>The members of a batch when \<open>batch.map\<close> has started their callbacks: the first is
  downloading, the others wait for \<open>delayMs\<close> (line 306).\<close>

definition started :: "'a list \<Rightarrow> task list" where
  "started batch = map (\<lambda>index. if index > 0 then Pausing else Downloading) [0..<length batch]"

text \<open>
  \<open>await Promise.allSettled(batchPromises)\<close>. The members of the batch run interleaved; the
  schedule names, one after the other, the member (by its index in the batch) whose pending
  operation completes next. An entry that names no member, or a settled one, has no effect.
  The batch is settled when every member is; when the schedule ends before that, the run is
  still waiting.
\<close>

datatype batchOutcome =
    AllSettled "IndexingResult list" nat "event list" "nat list"
  | Exited nat "event list"
  | Waiting nat "event list"

fun awaitAll ::
  "indexer \<Rightarrow> source \<Rightarrow> string \<Rightarrow> int \<Rightarrow> string list \<Rightarrow> task list \<Rightarrow> nat \<Rightarrow> event list
     \<Rightarrow> nat list \<Rightarrow> batchOutcome" where
  "awaitAll ix src container i batch ts c log [] =
     (if list_all isDone ts then AllSettled [r. Done r \<leftarrow> ts] c log [] else Waiting c log)"
| "awaitAll ix src container i batch ts c log (j # sched) =
     (if list_all isDone ts then AllSettled [r. Done r \<leftarrow> ts] c log (j # sched)
      else if j < length ts \<and> j < length batch \<and> \<not> isDone (ts ! j) then
        (case taskStep ix src container (batch ! j) c (ts ! j) of
           (c', None) \<Rightarrow> Exited c' (log @ observe ix src (batch ! j) (i + int j) (ts ! j))
         | (c', Some t) \<Rightarrow>
             awaitAll ix src container i batch (ts[j := t]) c'
               (log @ observe ix src (batch ! j) (i + int j) (ts ! j) @ announce (i + int j) t)
               sched)
      else awaitAll ix src container i batch ts c log sched)"

text \<open>
  The loop over the batches (lines 296 to 362). It does not return when \<open>concurrency\<close> is
  not positive: the value is \<open>None\<close> then.
\<close>

datatype loopOutcome =
    LoopDone "IndexingResult list" nat "event list" "nat list"
  | LoopExited nat "event list"
  | LoopWaiting nat "event list"

partial_function (option) batchLoop ::
  "indexer \<Rightarrow> source \<Rightarrow> string \<Rightarrow> int \<Rightarrow> string list \<Rightarrow> int \<Rightarrow> IndexingResult list \<Rightarrow> nat
     \<Rightarrow> event list \<Rightarrow> nat list \<Rightarrow> loopOutcome option" where
  "batchLoop ix src container concurrency allBlobs i rs c log sched =
     (if i < int (length allBlobs) then
        (let batch = slice allBlobs i (i + concurrency) in
         case awaitAll ix src container i batch (started batch) c
                (log @ BatchStart batch # map (\<lambda>j. Began (i + int j)) [0..<length batch]) sched of
           AllSettled batchResults c' log' sched' \<Rightarrow>
             batchLoop ix src container concurrency allBlobs (i + concurrency)
               (rs @ batchResults) c' log' sched'
         | Exited c' log' \<Rightarrow> Some (LoopExited c' log')
         | Waiting c' log' \<Rightarrow> Some (LoopWaiting c' log'))
      else Some (LoopDone rs c log sched))"

declare batchLoop.simps [code]

text \<open>
  The state that a run threads through: the counter \<open>consecutiveTimeouts\<close> of the indexer,
  what has been observed so far, and what is left of the schedule.
\<close>

record world =
  consecutiveTimeouts :: nat
  trace :: "event list"
  schedule :: "nat list"

text \<open>How a call ends: it returns, it throws, the process has exited inside it, or it is
  still waiting at the end of the schedule.\<close>

datatype 'a outcome = Returned 'a | Threw string | ProcessExited | Pending

definition containerName :: "source \<Rightarrow> string" where
  "containerName src = (case src of Qast \<Rightarrow> ''qast-mhtml'' | Stock \<Rightarrow> ''stock-mhtml'')"

definition blobPrefix :: "source \<Rightarrow> string" where
  "blobPrefix src = (case src of Qast \<Rightarrow> ''qast-mhtml/data'' | Stock \<Rightarrow> ''stock-mhtml/data'')"

definition makeReport :: "IndexingResult list \<Rightarrow> report" where
  "makeReport rs =
     \<lparr>total = length rs,
      success_count = length (filter (\<lambda>r. success r) rs),
      failed = length (filter (\<lambda>r. \<not> success r) rs),
      results = rs\<rparr>"

definition indexSourceMhtmlFiles ::
  "indexer \<Rightarrow> source \<Rightarrow> int \<Rightarrow> bool \<Rightarrow> world \<Rightarrow> (report outcome \<times> world) option" where
  "indexSourceMhtmlFiles ix src concurrency dryRun w =
     (case (if \<not> dryRun then getProperties ix else None) of
        Some e \<Rightarrow> Some (Threw e, w)
      | None \<Rightarrow>
         (case listBlobsFlat ix (containerName src) (blobPrefix src) of
            Inl e \<Rightarrow> Some (Threw e, w)
          | Inr listed \<Rightarrow>
             (let allBlobs = filter (\<lambda>name. endsWith name ''.mhtml'') listed in
              if length allBlobs = 0
              then Some (Returned \<lparr>total = 0, success_count = 0, failed = 0, results = []\<rparr>, w)
              else if dryRun
              then Some (Returned \<lparr>total = length allBlobs, success_count = 0, failed = 0,
                                    results = []\<rparr>, w)
              else
               (case batchLoop ix src (containerName src) concurrency allBlobs 0 []
                       (consecutiveTimeouts w) (trace w) (schedule w) of
                  None \<Rightarrow> None
                | Some (LoopDone rs c log sched) \<Rightarrow>
                    Some (Returned (makeReport rs),
                          \<lparr>consecutiveTimeouts = c, trace = log, schedule = sched\<rparr>)
                | Some (LoopExited c log) \<Rightarrow>
                    Some (ProcessExited, \<lparr>consecutiveTimeouts = c, trace = log, schedule = []\<rparr>)
                | Some (LoopWaiting c log) \<Rightarrow>
                    Some (Pending, \<lparr>consecutiveTimeouts = c, trace = log, schedule = []\<rparr>)))))"

section \<open>The run coordinator: \<open>indexAllMhtmlFiles\<close>\<close>

text \<open>The selector \<open>targetSource\<close>, of type \<open>'qast' | 'stock' | 'all'\<close>, after its defaults
  have been resolved.\<close>

datatype target = OnlyQast | OnlyStock | AllSources

record runReport =
  qast :: "report option"
  stock :: "report option"
  combined :: counts

text \<open>The three \<open>+=\<close> on \<open>results.combined\<close> (lines 426 to 428 and 438 to 440).\<close>

definition addCounts :: "counts \<Rightarrow> report \<Rightarrow> counts" where
  "addCounts acc r =
     \<lparr>total = total acc + total r,
      success_count = success_count acc + success_count r,
      failed = failed acc + failed r\<rparr>"

fun store :: "source \<Rightarrow> runReport \<Rightarrow> report \<Rightarrow> runReport" where
  "store Qast run r = run\<lparr>qast := Some r, combined := addCounts (combined run) r\<rparr>"
| "store Stock run r = run\<lparr>stock := Some r, combined := addCounts (combined run) r\<rparr>"

text \<open>One of the two blocks of the \<open>try\<close> (lines 423 to 429, 432 to 441): run the partition
  and add its report; an exception is thrown on by the \<open>catch\<close>.\<close>

definition processSource ::
  "indexer \<Rightarrow> source \<Rightarrow> int \<Rightarrow> bool \<Rightarrow> runReport \<Rightarrow> world
     \<Rightarrow> (runReport outcome \<times> world) option" where
  "processSource ix src concurrency dryRun run w =
     (case indexSourceMhtmlFiles ix src concurrency dryRun w of
        None \<Rightarrow> None
      | Some (Returned r, w') \<Rightarrow> Some (Returned (store src run r), w')
      | Some (Threw e, w') \<Rightarrow> Some (Threw e, w')
      | Some (ProcessExited, w') \<Rightarrow> Some (ProcessExited, w')
      | Some (Pending, w') \<Rightarrow> Some (Pending, w'))"

definition indexAllMhtmlFiles ::
  "indexer \<Rightarrow> target \<Rightarrow> int \<Rightarrow> bool \<Rightarrow> world \<Rightarrow> (runReport outcome \<times> world) option" where
  "indexAllMhtmlFiles ix targetSource concurrency dryRun w =
     (let run = \<lparr>qast = None, stock = None,
                 combined = \<lparr>total = 0, success_count = 0, failed = 0\<rparr>\<rparr> in
      case (if targetSource = OnlyQast \<or> targetSource = AllSources
            then processSource ix Qast concurrency dryRun run w
            else Some (Returned run, w)) of
        Some (Returned run', w') \<Rightarrow>
          (if targetSource = OnlyStock \<or> targetSource = AllSources
           then processSource ix Stock concurrency dryRun run' w'
           else Some (Returned run', w'))
      | other \<Rightarrow> other)"

text \<open>The partition reports that a run report holds.\<close>

definition included :: "runReport \<Rightarrow> report list" where
  "included run =
     (case qast run of Some r \<Rightarrow> [r] | None \<Rightarrow> []) @
     (case stock run of Some r \<Rightarrow> [r] | None \<Rightarrow> [])"

section \<open>Notions for stating the properties\<close>

text \<open>What a run has added to the trace.\<close>

definition added :: "world \<Rightarrow> world \<Rightarrow> event list" where
  "added w w' = drop (length (trace w)) (trace w')"

text \<open>
  The wording of the specification for the batches: the list cut into consecutive groups
  of size \<open>c\<close>, the last one possibly smaller. It is compared below with the batches that
  the loop of \<open>indexSourceMhtmlFiles\<close> cuts with \<open>slice\<close>.
\<close>

fun consecutiveGroups :: "nat \<Rightarrow> 'a list \<Rightarrow> 'a list list" where
  "consecutiveGroups c xs =
     (if c = 0 \<or> xs = [] then [] else take c xs # consecutiveGroups c (drop c xs))"

declare consecutiveGroups.simps [simp del]

text \<open>The blob (by its index in \<open>allBlobs\<close>) that an event is about, and the order of two
  events by the groups of their blobs: the first is not of a later group than the second.\<close>

fun itemOf :: "event \<Rightarrow> int option" where
  "itemOf (BatchStart b) = None"
| "itemOf (Began i) = Some i"
| "itemOf (Attempt i k) = Some i"
| "itemOf (Ended i k outcome) = Some i"
| "itemOf (Settled i) = Some i"

definition notLater :: "int \<Rightarrow> event \<Rightarrow> event \<Rightarrow> bool" where
  "notLater c e1 e2 =
     (case (itemOf e1, itemOf e2) of (Some a, Some b) \<Rightarrow> a div c \<le> b div c | _ \<Rightarrow> True)"

text \<open>
  The wording of the specification for the counter of consecutive timeouts: a timeout adds
  one, an accepted submission sets it to 0, any other outcome leaves it as it is.
  \<open>consecutive c outs\<close> is the counter after the outcomes \<open>outs\<close>, from \<open>c\<close>.
\<close>

fun counted :: "nat \<Rightarrow> attemptOutcome \<Rightarrow> nat" where
  "counted c AbortError = c + 1"
| "counted c (Responded r) = (if ok r then 0 else c)"
| "counted c (FetchFailed e) = c"
| "counted c (SetupThrew e) = c"

definition consecutive :: "nat \<Rightarrow> attemptOutcome list \<Rightarrow> nat" where
  "consecutive c outs = foldl counted c outs"

text \<open>
  The wording of the specification for the circuit breaker with the ceiling \<open>n\<close>: the
  outcomes are counted one after the other, and the run is over as soon as the counter
  reaches \<open>n\<close>. The value is the counter at the end, whether the breaker has tripped, and
  the outcomes that come after the one at which it has. It is compared below with the
  outcomes of the attempts of a run, in the order in which they end.
\<close>

fun breaker :: "int \<Rightarrow> nat \<Rightarrow> attemptOutcome list \<Rightarrow> nat \<times> bool \<times> attemptOutcome list" where
  "breaker n c [] = (c, False, [])"
| "breaker n c (outcome # outs) =
     (if n \<le> int (counted c outcome) then (counted c outcome, True, outs)
      else breaker n (counted c outcome) outs)"

text \<open>The outcomes of the attempts in a trace, in the order in which they have ended.\<close>

definition outcomes :: "event list \<Rightarrow> attemptOutcome list" where
  "outcomes tr = [outcome. Ended i k outcome \<leftarrow> tr]"

text \<open>The counter against the ceiling \<open>n\<close> at the end of a batch and at the end of the loop:
  below it when the run goes on, at it when the process has exited.\<close>

fun batchCounterOk :: "int \<Rightarrow> batchOutcome \<Rightarrow> bool" where
  "batchCounterOk n (AllSettled rs c log sched) = (int c < n)"
| "batchCounterOk n (Waiting c log) = (int c < n)"
| "batchCounterOk n (Exited c log) = (int c = n)"

fun loopCounterOk :: "int \<Rightarrow> loopOutcome \<Rightarrow> bool" where
  "loopCounterOk n (LoopDone rs c log sched) = (int c < n)"
| "loopCounterOk n (LoopWaiting c log) = (int c < n)"
| "loopCounterOk n (LoopExited c log) = (int c = n)"

text \<open>The counter at the end of a batch and at the end of the loop, and whether the process
  has exited there.\<close>

fun batchCounter :: "batchOutcome \<Rightarrow> nat" where
  "batchCounter (AllSettled rs c log sched) = c"
| "batchCounter (Exited c log) = c"
| "batchCounter (Waiting c log) = c"

fun batchExited :: "batchOutcome \<Rightarrow> bool" where
  "batchExited (Exited c log) = True"
| "batchExited other = False"

fun loopCounter :: "loopOutcome \<Rightarrow> nat" where
  "loopCounter (LoopDone rs c log sched) = c"
| "loopCounter (LoopExited c log) = c"
| "loopCounter (LoopWaiting c log) = c"

fun loopExited :: "loopOutcome \<Rightarrow> bool" where
  "loopExited (LoopExited c log) = True"
| "loopExited other = False"

text \<open>The trace at the end of a batch and at the end of the loop.\<close>

fun batchLog :: "batchOutcome \<Rightarrow> event list" where
  "batchLog (AllSettled rs c log sched) = log"
| "batchLog (Exited c log) = log"
| "batchLog (Waiting c log) = log"

fun loopLog :: "loopOutcome \<Rightarrow> event list" where
  "loopLog (LoopDone rs c log sched) = log"
| "loopLog (LoopExited c log) = log"
| "loopLog (LoopWaiting c log) = log"

section \<open>Example inputs\<close>

definition busy :: response where
  "busy = \<lparr>ok = False, status = 503, responseText = Inr ''busy''\<rparr>"

definition accepted :: response where
  "accepted = \<lparr>ok = True, status = 200, responseText = Inr ''indexed''\<rparr>"

text \<open>An endpoint that answers every attempt with 503.\<close>

definition alwaysBusy :: "int \<Rightarrow> attemptOutcome" where
  "alwaysBusy k = Responded busy"

text \<open>An endpoint that refuses the connection at every attempt.\<close>

definition connectionRefused :: "int \<Rightarrow> attemptOutcome" where
  "connectionRefused k = FetchFailed ''ECONNREFUSED''"

text \<open>An endpoint that times out on the first two attempts and then accepts.\<close>

definition slowStart :: "int \<Rightarrow> attemptOutcome" where
  "slowStart j = (if j \<le> int 2 then AbortError else Responded accepted)"

text \<open>
  An indexer whose store lists five documents and another file for \<open>qast\<close> and one
  document for \<open>stock\<close>; the endpoint answers the second document with 503, times out on
  the first attempt for the fifth, and accepts everything else. The schedule of
  \<open>exampleStart\<close> lets every operation of the run complete.
\<close>

definition exampleIndexer :: indexer where
  "exampleIndexer =
     \<lparr>getProperties = None,
      listBlobsFlat = (\<lambda>container prefix.
         if container = ''qast-mhtml''
         then Inr [''qast-mhtml/data/q1.mhtml'', ''qast-mhtml/data/q2.mhtml'',
                   ''qast-mhtml/data/index.txt'', ''qast-mhtml/data/q3.mhtml'',
                   ''qast-mhtml/data/q4.mhtml'', ''qast-mhtml/data/q5.mhtml'']
         else Inr [''stock-mhtml/data/s7.mhtml'']),
      downloadBlob = (\<lambda>container name. None),
      fetch = (\<lambda>indexType name k.
         if name = ''qast-mhtml/data/q2.mhtml'' then Responded busy
         else if name = ''qast-mhtml/data/q5.mhtml'' \<and> k = 1 then AbortError
         else Responded accepted),
      MAX_CONSECUTIVE_TIMEOUTS = 10,
      MAX_RETRIES = 3\<rparr>"

definition exampleStart :: world where
  "exampleStart =
     \<lparr>consecutiveTimeouts = 0, trace = [],
      schedule = [0, 1, 1, 0, 1, 1, 0, 1, 0, 1, 0, 0, 0, 0, 0, 0]\<rparr>"

definition exampleQastReport :: report where
  "exampleQastReport =
     \<lparr>total = 5, success_count = 4, failed = 1,
      results =
        [\<lparr>success = True, blobName = ''qast-mhtml/data/q1.mhtml'', source = Qast,
          error = None, statusCode = Some 200\<rparr>,
         \<lparr>success = False, blobName = ''qast-mhtml/data/q2.mhtml'', source = Qast,
          error = Some ''HTTP 503: busy'', statusCode = Some 503\<rparr>,
         \<lparr>success = True, blobName = ''qast-mhtml/data/q3.mhtml'', source = Qast,
          error = None, statusCode = Some 200\<rparr>,
         \<lparr>success = True, blobName = ''qast-mhtml/data/q4.mhtml'', source = Qast,
          error = None, statusCode = Some 200\<rparr>,
         \<lparr>success = True, blobName = ''qast-mhtml/data/q5.mhtml'', source = Qast,
          error = None, statusCode = Some 200\<rparr>]\<rparr>"

definition exampleQastTrace :: "event list" where
  "exampleQastTrace =
     [BatchStart [''qast-mhtml/data/q1.mhtml'', ''qast-mhtml/data/q2.mhtml''],
      Began 0, Began 1, Attempt 0 1, Attempt 1 1,
      Ended 0 1 (Responded accepted), Settled 0, Ended 1 1 (Responded busy), Settled 1,
      BatchStart [''qast-mhtml/data/q3.mhtml'', ''qast-mhtml/data/q4.mhtml''],
      Began 2, Began 3, Attempt 2 1, Attempt 3 1,
      Ended 2 1 (Responded accepted), Settled 2, Ended 3 1 (Responded accepted), Settled 3,
      BatchStart [''qast-mhtml/data/q5.mhtml''],
      Began 4, Attempt 4 1, Ended 4 1 AbortError, Attempt 4 2,
      Ended 4 2 (Responded accepted), Settled 4]"

definition exampleStockReport :: report where
  "exampleStockReport =
     \<lparr>total = 1, success_count = 1, failed = 0,
      results =
        [\<lparr>success = True, blobName = ''stock-mhtml/data/s7.mhtml'', source = Stock,
          error = None, statusCode = Some 200\<rparr>]\<rparr>"

definition exampleRunReport :: runReport where
  "exampleRunReport =
     \<lparr>qast = Some exampleQastReport, stock = Some exampleStockReport,
      combined = \<lparr>total = 6, success_count = 5, failed = 1\<rparr>\<rparr>"

definition exampleEnd :: world where
  "exampleEnd =
     \<lparr>consecutiveTimeouts = 0,
      trace = exampleQastTrace @
        [BatchStart [''stock-mhtml/data/s7.mhtml''], Began 0, Attempt 0 1,
         Ended 0 1 (Responded accepted), Settled 0],
      schedule = []\<rparr>"

text \<open>An endpoint that times out on the first attempt and answers 503 from then on.\<close>

definition timeoutThenBusy :: "int \<Rightarrow> attemptOutcome" where
  "timeoutThenBusy k = (if k = 1 then AbortError else Responded busy)"

text \<open>The same store with an endpoint that never answers in time, and a ceiling of three
  consecutive timeouts; where the run of \<open>exampleStart\<close> ends with it.\<close>

definition unresponsiveIndexer :: indexer where
  "unresponsiveIndexer =
     exampleIndexer\<lparr>fetch := (\<lambda>indexType name k. AbortError), MAX_CONSECUTIVE_TIMEOUTS := 3\<rparr>"

definition unresponsiveEnd :: world where
  "unresponsiveEnd =
     \<lparr>consecutiveTimeouts = 3,
      trace = [BatchStart [''qast-mhtml/data/q1.mhtml'', ''qast-mhtml/data/q2.mhtml''],
               Began 0, Began 1, Attempt 0 1, Attempt 1 1, Ended 0 1 AbortError,
               Ended 1 1 AbortError, Attempt 1 2, Attempt 0 2, Ended 1 2 AbortError],
      schedule = []\<rparr>"

text \<open>
  A store with three documents for \<open>qast\<close> and four for \<open>stock\<close>, under the limits that the
  source takes by default: three attempts for a document, ten consecutive timeouts. The
  endpoint of \<open>recoveringIndexer\<close> accepts the first document of \<open>stock\<close> and answers no
  other in time; that of \<open>deadIndexer\<close> answers none in time. The schedule of \<open>patientStart\<close>
  lets the only member of a batch run, forty times.
\<close>

definition recoveringIndexer :: indexer where
  "recoveringIndexer =
     \<lparr>getProperties = None,
      listBlobsFlat = (\<lambda>container prefix.
         if container = ''qast-mhtml''
         then Inr [''qast-mhtml/data/a1.mhtml'', ''qast-mhtml/data/a2.mhtml'',
                   ''qast-mhtml/data/a3.mhtml'']
         else Inr [''stock-mhtml/data/b1.mhtml'', ''stock-mhtml/data/b2.mhtml'',
                   ''stock-mhtml/data/b3.mhtml'', ''stock-mhtml/data/b4.mhtml'']),
      downloadBlob = (\<lambda>container name. None),
      fetch = (\<lambda>indexType name k.
         if name = ''stock-mhtml/data/b1.mhtml'' then Responded accepted else AbortError),
      MAX_CONSECUTIVE_TIMEOUTS = 10,
      MAX_RETRIES = 3\<rparr>"

definition deadIndexer :: indexer where
  "deadIndexer = recoveringIndexer\<lparr>fetch := (\<lambda>indexType name k. AbortError)\<rparr>"

definition patientStart :: world where
  "patientStart = \<lparr>consecutiveTimeouts = 0, trace = [], schedule = replicate 40 0\<rparr>"

text \<open>What a document adds to the trace when it is alone in its batch and its three
  attempts time out.\<close>

definition exhausted :: "int \<Rightarrow> string \<Rightarrow> event list" where
  "exhausted i name =
     [BatchStart [name], Began i,
      Attempt i 1, Ended i 1 AbortError, Attempt i 2, Ended i 2 AbortError,
      Attempt i 3, Ended i 3 AbortError, Settled i]"

definition recoveringReport :: runReport where
  "recoveringReport =
     \<lparr>qast = Some
        \<lparr>total = 3, success_count = 0, failed = 3,
         results = [retriesExhausted ''qast-mhtml/data/a1.mhtml'' Qast 3,
                    retriesExhausted ''qast-mhtml/data/a2.mhtml'' Qast 3,
                    retriesExhausted ''qast-mhtml/data/a3.mhtml'' Qast 3]\<rparr>,
      stock = Some
        \<lparr>total = 4, success_count = 1, failed = 3,
         results = [okResult ''stock-mhtml/data/b1.mhtml'' Stock accepted,
                    retriesExhausted ''stock-mhtml/data/b2.mhtml'' Stock 3,
                    retriesExhausted ''stock-mhtml/data/b3.mhtml'' Stock 3,
                    retriesExhausted ''stock-mhtml/data/b4.mhtml'' Stock 3]\<rparr>,
      combined = \<lparr>total = 7, success_count = 1, failed = 6\<rparr>\<rparr>"

definition recoveringEnd :: world where
  "recoveringEnd =
     \<lparr>consecutiveTimeouts = 9,
      trace =
        exhausted 0 ''qast-mhtml/data/a1.mhtml'' @ exhausted 1 ''qast-mhtml/data/a2.mhtml'' @
        exhausted 2 ''qast-mhtml/data/a3.mhtml'' @
        [BatchStart [''stock-mhtml/data/b1.mhtml''], Began 0, Attempt 0 1,
         Ended 0 1 (Responded accepted), Settled 0] @
        exhausted 1 ''stock-mhtml/data/b2.mhtml'' @ exhausted 2 ''stock-mhtml/data/b3.mhtml'' @
        exhausted 3 ''stock-mhtml/data/b4.mhtml'',
      schedule = [0, 0]\<rparr>"

definition deadEnd :: world where
  "deadEnd =
     \<lparr>consecutiveTimeouts = 10,
      trace =
        exhausted 0 ''qast-mhtml/data/a1.mhtml'' @ exhausted 1 ''qast-mhtml/data/a2.mhtml'' @
        exhausted 2 ''qast-mhtml/data/a3.mhtml'' @
        [BatchStart [''stock-mhtml/data/b1.mhtml''], Began 0, Attempt 0 1, Ended 0 1 AbortError],
      schedule = []\<rparr>"

section \<open>Properties of the submission client\<close>

lemma attempts_append [simp]: "attempts (xs @ ys) = attempts xs + attempts ys"
  by (simp add: attempts_def)

lemma attempts_simps [simp]:
  "attempts [] = 0"
  "attempts (Try k # tr) = Suc (attempts tr)"
  "attempts (Sleep ms # tr) = attempts tr"
  by (simp_all add: attempts_def)

text \<open>
  C10. With \<open>maxRetries = 0\<close> the loop body never runs: no attempt is made, the counter
  is what it was, and the result is the failure whose message says that it failed after
  0 retries.
\<close>

theorem zero_budget_makes_no_attempt:
  "indexMhtmlFile ceiling c name indexType 0 script =
     (Some \<lparr>success = False, blobName = name, source = indexType,
            error = Some (''0'' @ retriesExhaustedText), statusCode = None\<rparr>, c, [])"
  by (simp add: indexMhtmlFile_def retryLoop.simps retriesExhausted_def showInt_def
        showNat.simps digit_def)

text \<open>
  C3. When the endpoint answers the first attempt with a response that is not ok (a status
  outside 200 to 299), and the budget allows an attempt at all, the call makes exactly
  that one attempt, whatever the budget, leaves the counter alone and returns a failure
  that carries the status code, and in its error text the status and the text of the body.
\<close>

theorem http_failure_is_not_retried:
  assumes "1 \<le> maxRetries" and "script 1 = Responded r" and "\<not> ok r"
  shows "indexMhtmlFile ceiling c name indexType maxRetries script =
           (Some \<lparr>success = False, blobName = name, source = indexType,
                  error = Some (''HTTP '' @ showInt (status r) @ '': '' @ errorText r),
                  statusCode = Some (status r)\<rparr>, c, [Try 1])
         \<and> errorText r = (case responseText r of Inr body \<Rightarrow> body | Inl e \<Rightarrow> readFailedText @ e)"
  using assms by (simp add: indexMhtmlFile_def retryLoop.simps httpFailure_def errorText_def)

theorem http_failure_is_not_retried_witness:
  "(1::int) \<le> 3 \<and> alwaysBusy 1 = Responded busy \<and> \<not> ok busy \<and>
   indexMhtmlFile 10 0 ''doc.mhtml'' Qast 3 alwaysBusy =
     (Some \<lparr>success = False, blobName = ''doc.mhtml'', source = Qast,
            error = Some ''HTTP 503: busy'', statusCode = Some 503\<rparr>, 0, [Try 1])"
proof -
  have h1: "(1::int) \<le> 3" by simp
  have h2: "alwaysBusy 1 = Responded busy" by (simp add: alwaysBusy_def)
  have h3: "\<not> ok busy" by (simp add: busy_def)
  have "showInt 503 = ''503''"
    by (simp add: showInt_def showNat.simps digit_def)
  then show ?thesis
    using h1 h2 h3
      http_failure_is_not_retried [where maxRetries = 3 and script = alwaysBusy and r = busy
        and ceiling = 10 and c = 0 and name = "''doc.mhtml''" and indexType = Qast]
    by (simp add: errorText_def busy_def)
qed

text \<open>Through \<open>m\<close> attempts that time out below the ceiling and before the last attempt,
  the loop goes on, with \<open>m\<close> more on the counter.\<close>

lemma retryLoop_timeouts:
  assumes "\<forall>j. a \<le> j \<and> j < a + int m \<longrightarrow> script j = AbortError"
      and "int (c + m) < ceiling" and "a + int m \<le> maxRetries"
  shows "\<exists>tr'. attempts tr' = m \<and>
           retryLoop ceiling name src maxRetries script a c tr =
           retryLoop ceiling name src maxRetries script (a + int m) (c + m) (tr @ tr')"
  using assms
proof (induction m arbitrary: a c tr)
  case 0
  show ?case by (rule exI [of _ "[]"]) simp
next
  case (Suc m)
  have h: "script a = AbortError" using Suc.prems(1) by simp
  have step: "retryLoop ceiling name src maxRetries script a c tr =
        retryLoop ceiling name src maxRetries script (a + 1) (c + 1)
          (tr @ [Try a, Sleep (2000 * a)])"
    using Suc.prems(2,3) h by (subst retryLoop.simps) simp
  have "\<forall>j. a + 1 \<le> j \<and> j < a + 1 + int m \<longrightarrow> script j = AbortError"
    using Suc.prems(1) by simp
  moreover have "int (c + 1 + m) < ceiling" using Suc.prems(2) by simp
  moreover have "a + 1 + int m \<le> maxRetries" using Suc.prems(3) by simp
  ultimately obtain tr' where tr': "attempts tr' = m"
     "retryLoop ceiling name src maxRetries script (a + 1) (c + 1)
        (tr @ [Try a, Sleep (2000 * a)]) =
      retryLoop ceiling name src maxRetries script (a + 1 + int m) (c + 1 + m)
        ((tr @ [Try a, Sleep (2000 * a)]) @ tr')"
    using Suc.IH [of "a + 1" "c + 1" "tr @ [Try a, Sleep (2000 * a)]"] by blast
  have "retryLoop ceiling name src maxRetries script a c tr =
        retryLoop ceiling name src maxRetries script (a + int (Suc m)) (c + Suc m)
          (tr @ ([Try a, Sleep (2000 * a)] @ tr'))"
    unfolding step tr'(2) by (simp add: algebra_simps)
  moreover have "attempts ([Try a, Sleep (2000 * a)] @ tr') = Suc m"
    using tr'(1) by simp
  ultimately show ?case by blast
qed

text \<open>After \<open>k\<close> timeouts an accepted attempt, within the budget: the call returns the
  success after \<open>k + 1\<close> attempts, and the counter is 0.\<close>

lemma timeouts_then_accepted:
  assumes "\<forall>j. 1 \<le> j \<and> j \<le> int k \<longrightarrow> script j = AbortError"
      and "script (int k + 1) = Responded resp" and "ok resp"
      and "int (c + k) < ceiling" and "int k < r"
  shows "\<exists>tr. attempts tr = k + 1 \<and>
           indexMhtmlFile ceiling c name src r script = (Some (okResult name src resp), 0, tr)"
proof -
  have "\<forall>j. 1 \<le> j \<and> j < 1 + int k \<longrightarrow> script j = AbortError" using assms(1) by simp
  moreover have "1 + int k \<le> r" using assms(5) by simp
  ultimately obtain tr' where tr': "attempts tr' = k"
     "retryLoop ceiling name src r script 1 c [] =
      retryLoop ceiling name src r script (1 + int k) (c + k) ([] @ tr')"
    using retryLoop_timeouts [of 1 k script c ceiling r name src "[]"] assms(4) by blast
  have "script (1 + int k) = Responded resp" using assms(2) by (simp add: add.commute)
  then have "retryLoop ceiling name src r script (1 + int k) (c + k) tr' =
      (Some (okResult name src resp), 0, tr' @ [Try (1 + int k)])"
    using assms(3,5) by (subst retryLoop.simps) simp
  then show ?thesis using tr'
    by (intro exI [of _ "tr' @ [Try (1 + int k)]"]) (simp add: indexMhtmlFile_def)
qed

text \<open>Timeouts at every attempt of the budget, below the ceiling: the call returns the
  failure of line 218 after as many attempts as the budget.\<close>

lemma timeouts_to_the_end:
  assumes "\<forall>j. 1 \<le> j \<and> j \<le> r \<longrightarrow> script j = AbortError"
      and "int c + r < ceiling" and "0 \<le> r"
  shows "\<exists>tr. attempts tr = nat r \<and>
           indexMhtmlFile ceiling c name src r script =
             (Some (retriesExhausted name src r), c + nat r, tr)"
proof (cases "r = 0")
  case True
  then show ?thesis
    by (intro exI [of _ "[]"]) (simp add: indexMhtmlFile_def retryLoop.simps)
next
  case False
  define m where "m = nat (r - 1)"
  have m: "int m = r - 1" using assms(3) False by (simp add: m_def)
  have "\<forall>j. 1 \<le> j \<and> j < 1 + int m \<longrightarrow> script j = AbortError"
    using assms(1) m by simp
  moreover have "int (c + m) < ceiling" using assms(2) m by simp
  moreover have "1 + int m \<le> r" using m by simp
  ultimately obtain tr' where tr': "attempts tr' = m"
     "retryLoop ceiling name src r script 1 c [] =
      retryLoop ceiling name src r script (1 + int m) (c + m) ([] @ tr')"
    using retryLoop_timeouts [of 1 m script c ceiling r name src "[]"] by blast
  have last: "script r = AbortError" using assms(1,3) False by simp
  have "int (c + m + 1) < ceiling" using assms(2) m by simp
  then have "retryLoop ceiling name src r script r (c + m) tr' =
      retryLoop ceiling name src r script (r + 1) (c + m + 1) (tr' @ [Try r])"
    using last by (subst retryLoop.simps) simp
  also have "\<dots> = (Some (retriesExhausted name src r), c + m + 1, tr' @ [Try r])"
    by (subst retryLoop.simps) simp
  finally have "retryLoop ceiling name src r script 1 c [] =
      (Some (retriesExhausted name src r), c + m + 1, tr' @ [Try r])"
    using tr'(2) m by simp
  moreover have "c + m + 1 = c + nat r" "Suc m = nat r" using m assms(3) by simp_all
  ultimately show ?thesis using tr'(1)
    by (intro exI [of _ "tr' @ [Try r]"]) (simp add: indexMhtmlFile_def)
qed

text \<open>
  C2. The budget counts attempts. Against an endpoint that times out on the first \<open>k\<close>
  attempts and accepts from then on, with a budget \<open>r \<ge> 1\<close> and the counter staying below
  the ceiling: when \<open>r \<ge> k + 1\<close> the call makes \<open>k + 1\<close> attempts and returns the success;
  when \<open>r < k + 1\<close> it makes exactly \<open>r\<close> attempts and returns the failure of line 218.
\<close>

theorem retry_budget_counts_attempts:
  assumes "1 \<le> r"
      and "\<forall>j. script j = (if j \<le> int k then AbortError else Responded resp)"
      and "ok resp"
      and "int c + min (int k) r < ceiling"
  shows "\<exists>tr. attempts tr = (if int k + 1 \<le> r then k + 1 else nat r) \<and>
          indexMhtmlFile ceiling c name src r script =
           (if int k + 1 \<le> r
            then (Some \<lparr>success = True, blobName = name, source = src, error = None,
                         statusCode = Some (status resp)\<rparr>, 0, tr)
            else (Some \<lparr>success = False, blobName = name, source = src,
                         error = Some (showInt r @ retriesExhaustedText),
                         statusCode = None\<rparr>, c + nat r, tr))"
proof (cases "int k + 1 \<le> r")
  case True
  have "\<forall>j. 1 \<le> j \<and> j \<le> int k \<longrightarrow> script j = AbortError" using assms(2) by simp
  moreover have "script (int k + 1) = Responded resp" using assms(2) by simp
  moreover have "int (c + k) < ceiling" using assms(4) True by simp
  moreover have "int k < r" using True by simp
  ultimately obtain tr where "attempts tr = k + 1"
    "indexMhtmlFile ceiling c name src r script = (Some (okResult name src resp), 0, tr)"
    using timeouts_then_accepted [where script = script and k = k and resp = resp and c = c
        and ceiling = ceiling and r = r and name = name and src = src] assms(3)
    by blast
  then show ?thesis using True by (auto simp: okResult_def)
next
  case False
  have "\<forall>j. 1 \<le> j \<and> j \<le> r \<longrightarrow> script j = AbortError" using assms(2) False by simp
  moreover have "int c + r < ceiling" using assms(4) False by simp
  moreover have "0 \<le> r" using assms(1) by simp
  ultimately obtain tr where "attempts tr = nat r"
    "indexMhtmlFile ceiling c name src r script =
       (Some (retriesExhausted name src r), c + nat r, tr)"
    using timeouts_to_the_end [where script = script and r = r and c = c
        and ceiling = ceiling and name = name and src = src]
    by blast
  then show ?thesis using False by (auto simp: retriesExhausted_def)
qed

theorem retry_budget_counts_attempts_witness:
  "(1::int) \<le> 3 \<and> (\<forall>j. slowStart j = (if j \<le> int 2 then AbortError else Responded accepted))
   \<and> ok accepted \<and> int 0 + min (int 2) 3 < 10 \<and>
   (\<exists>tr. attempts tr = 3 \<and>
      indexMhtmlFile 10 0 ''doc.mhtml'' Qast 3 slowStart =
        (Some \<lparr>success = True, blobName = ''doc.mhtml'', source = Qast, error = None,
               statusCode = Some 200\<rparr>, 0, tr))"
proof -
  have h1: "(1::int) \<le> 3" by simp
  have h2: "\<forall>j. slowStart j = (if j \<le> int 2 then AbortError else Responded accepted)"
    by (simp add: slowStart_def)
  have h3: "ok accepted" by (simp add: accepted_def)
  have h4: "int 0 + min (int 2) 3 < 10" by simp
  show ?thesis
    using h1 h2 h3 h4
      retry_budget_counts_attempts [where r = 3 and k = 2 and script = slowStart
        and resp = accepted and c = 0 and ceiling = 10 and name = "''doc.mhtml''" and src = Qast,
        OF h1 h2 h3 h4]
    by (simp add: accepted_def)
qed

text \<open>When no attempt from \<open>a\<close> on is answered, a call that returns returns the failure of
  line 218, after one attempt for each number from \<open>a\<close> to \<open>maxRetries\<close>.\<close>

lemma retryLoop_unanswered:
  "retryLoop ceiling name src maxRetries script a c tr = (Some res, c', tr') \<Longrightarrow>
   \<forall>j. a \<le> j \<and> j \<le> maxRetries \<longrightarrow> (\<forall>resp. script j \<noteq> Responded resp) \<Longrightarrow>
   res = retriesExhausted name src maxRetries \<and>
   attempts tr' = attempts tr + nat (maxRetries + 1 - a)"
proof (induction ceiling name src maxRetries script a c tr rule: retryLoop.induct)
  case (1 ceiling name indexType maxRetries script attempt c tr)
  show ?case
  proof (cases "attempt \<le> maxRetries")
    case False
    then show ?thesis using "1.prems"(1) by (simp add: retryLoop.simps)
  next
    case True
    obtain c1 st where st: "afterAttempt ceiling name indexType maxRetries attempt c (script attempt)
        = (c1, st)"
      by (cases "afterAttempt ceiling name indexType maxRetries attempt c (script attempt)")
    have unanswered: "\<forall>resp. script attempt \<noteq> Responded resp"
      using "1.prems"(2) True by simp
    have rest: "\<forall>j. attempt + 1 \<le> j \<and> j \<le> maxRetries \<longrightarrow> (\<forall>resp. script j \<noteq> Responded resp)"
      using "1.prems"(2) by simp
    have count: "Suc (nat (maxRetries - attempt)) = nat (maxRetries + 1 - attempt)"
      using True by simp
    show ?thesis
    proof (cases st)
      case (Return r)
      then show ?thesis using st unanswered
        by (cases "script attempt") (auto split: if_splits)
    next
      case (Retry ms)
      then have "retryLoop ceiling name indexType maxRetries script (attempt + 1) c1
                   (tr @ [Try attempt, Sleep ms]) = (Some res, c', tr')"
        using "1.prems"(1) True st by (simp add: retryLoop.simps [of _ _ _ _ _ attempt])
      from "1.IH"(1) [OF True st [symmetric] Retry this rest] count
      show ?thesis by simp
    next
      case FallThrough
      then have "retryLoop ceiling name indexType maxRetries script (attempt + 1) c1
                   (tr @ [Try attempt]) = (Some res, c', tr')"
        using "1.prems"(1) True st by (simp add: retryLoop.simps [of _ _ _ _ _ attempt])
      from "1.IH"(2) [OF True st [symmetric] FallThrough this rest] count
      show ?thesis by simp
    next
      case ProcessExit
      then show ?thesis using "1.prems"(1) True st
        by (simp add: retryLoop.simps [of _ _ _ _ _ attempt])
    qed
  qed
qed

text \<open>
  C4, as amended. A call whose attempts are all unanswered (timeouts, network failures)
  and that returns has made one attempt for each unit of its budget and returns a failure
  with the blob name and the source, no status code, and as its error the budget followed
  by the fixed text of line 222: the error is determined by the budget alone, and carries
  nothing of the error of any attempt.
\<close>

theorem exhausted_budget_result:
  assumes "\<forall>j. 1 \<le> j \<and> j \<le> r \<longrightarrow> (\<forall>resp. script j \<noteq> Responded resp)"
      and "indexMhtmlFile ceiling c name src r script = (Some res, c', tr)"
  shows "res = \<lparr>success = False, blobName = name, source = src,
                 error = Some (showInt r @ retriesExhaustedText), statusCode = None\<rparr>
         \<and> attempts tr = nat r"
  using retryLoop_unanswered [OF assms(2) [unfolded indexMhtmlFile_def] assms(1)]
  by (simp add: retriesExhausted_def)

lemma refused_twice:
  "indexMhtmlFile 10 0 ''doc.mhtml'' Qast 2 connectionRefused =
     (Some \<lparr>success = False, blobName = ''doc.mhtml'', source = Qast,
            error = Some (''2'' @ retriesExhaustedText), statusCode = None\<rparr>,
      0, [Try 1, Sleep 1000, Try 2])"
  by (simp add: indexMhtmlFile_def retryLoop.simps connectionRefused_def retriesExhausted_def
        showInt_def showNat.simps digit_def)

theorem exhausted_budget_result_witness:
  "indexMhtmlFile 10 0 ''doc.mhtml'' Qast 2 connectionRefused =
     (Some \<lparr>success = False, blobName = ''doc.mhtml'', source = Qast,
            error = Some (''2'' @ retriesExhaustedText), statusCode = None\<rparr>,
      0, [Try 1, Sleep 1000, Try 2])
   \<and> attempts [Try 1, Sleep 1000, Try 2] = nat 2"
proof -
  have h1: "\<forall>j. 1 \<le> j \<and> j \<le> 2 \<longrightarrow> (\<forall>resp. connectionRefused j \<noteq> Responded resp)"
    by (simp add: connectionRefused_def)
  show ?thesis
    using exhausted_budget_result [OF h1 refused_twice] refused_twice by simp
qed

text \<open>
  C4 as stated fails: with a budget of one attempt, which ends with the network error
  \<open>ECONNREFUSED\<close>, the error of the result is \<open>1\<close> followed by the fixed text, in which the
  detail of that last error does not occur.
\<close>

theorem last_error_detail_counterexample:
  "indexMhtmlFile 10 0 ''doc.mhtml'' Qast 1 connectionRefused =
     (Some \<lparr>success = False, blobName = ''doc.mhtml'', source = Qast,
            error = Some (''1'' @ retriesExhaustedText), statusCode = None\<rparr>, 0, [Try 1])
   \<and> connectionRefused 1 = FetchFailed ''ECONNREFUSED''
   \<and> \<not> includesText (''1'' @ retriesExhaustedText) ''ECONNREFUSED''"
proof (intro conjI)
  show "indexMhtmlFile 10 0 ''doc.mhtml'' Qast 1 connectionRefused =
     (Some \<lparr>success = False, blobName = ''doc.mhtml'', source = Qast,
            error = Some (''1'' @ retriesExhaustedText), statusCode = None\<rparr>, 0, [Try 1])"
    by (simp add: indexMhtmlFile_def retryLoop.simps connectionRefused_def retriesExhausted_def
        showInt_def showNat.simps digit_def)
  show "connectionRefused 1 = FetchFailed ''ECONNREFUSED''"
    by (simp add: connectionRefused_def)
  show "\<not> includesText (''1'' @ retriesExhaustedText) ''ECONNREFUSED''"
    by (simp add: retriesExhaustedText_def)
qed

section \<open>The consecutive-timeout counter and the circuit breaker\<close>

text \<open>From a counter below the ceiling, an attempt leaves it below the ceiling, or brings it
  to the ceiling and the process exits; so do the step of a member, a batch and the loop.\<close>

lemma afterAttempt_counter:
  assumes "afterAttempt ceiling name src m k c out = (c', st)" and "int c < ceiling"
  shows "if st = ProcessExit then int c' = ceiling else int c' < ceiling"
  using assms by (cases out) (auto split: if_splits)

text \<open>The counter and the ceiling decide nothing of an attempt but whether the process
  exits: where it does not, the step is the same from every counter and under every
  ceiling.\<close>

lemma afterAttempt_step_independent:
  assumes "snd (afterAttempt ceiling' name src m k c' out) \<noteq> ProcessExit"
  shows "snd (afterAttempt ceiling name src m k c out) = ProcessExit
       \<or> snd (afterAttempt ceiling name src m k c out)
           = snd (afterAttempt ceiling' name src m k c' out)"
  using assms by (cases out) (auto split: if_splits)

lemma taskStep_counter:
  assumes "taskStep ix src container name c t = (c', t')"
      and "int c < MAX_CONSECUTIVE_TIMEOUTS ix"
  shows "if t' = None then int c' = MAX_CONSECUTIVE_TIMEOUTS ix
         else int c' < MAX_CONSECUTIVE_TIMEOUTS ix"
proof (cases t)
  case Pausing
  then show ?thesis using assms by auto
next
  case Downloading
  then show ?thesis using assms by (auto split: option.splits)
next
  case (BackingOff k ms)
  then show ?thesis using assms by auto
next
  case (Attempting k)
  obtain c1 st where st: "afterAttempt (MAX_CONSECUTIVE_TIMEOUTS ix) name src (MAX_RETRIES ix) k c
      (fetch ix src name k) = (c1, st)"
    by (cases "afterAttempt (MAX_CONSECUTIVE_TIMEOUTS ix) name src (MAX_RETRIES ix) k c
      (fetch ix src name k)")
  from afterAttempt_counter [OF st assms(2)] st assms(1) Attempting
  show ?thesis by (cases st) auto
next
  case (Done r)
  then show ?thesis using assms by auto
qed

lemma awaitAll_counter:
  "int c < MAX_CONSECUTIVE_TIMEOUTS ix \<Longrightarrow>
   batchCounterOk (MAX_CONSECUTIVE_TIMEOUTS ix) (awaitAll ix src container i batch ts c log sched)"
proof (induction sched arbitrary: ts c log)
  case Nil
  then show ?case by simp
next
  case (Cons j sched)
  show ?case
  proof (cases "\<not> list_all isDone ts \<and> j < length ts \<and> j < length batch \<and> \<not> isDone (ts ! j)")
    case False
    then show ?thesis using Cons by auto
  next
    case True
    obtain c1 t1 where st: "taskStep ix src container (batch ! j) c (ts ! j) = (c1, t1)"
      by (cases "taskStep ix src container (batch ! j) c (ts ! j)")
    from taskStep_counter [OF st Cons.prems] show ?thesis
      using True st Cons.IH by (cases t1) auto
  qed
qed

lemma batchLoop_counter:
  "batchLoop ix src container concurrency allBlobs i rs c log sched = Some y \<Longrightarrow>
   int c < MAX_CONSECUTIVE_TIMEOUTS ix \<Longrightarrow> loopCounterOk (MAX_CONSECUTIVE_TIMEOUTS ix) y"
proof (induct rule: batchLoop.raw_induct [rotated 1, consumes 1, case_names step])
  case (step batchLoop' ix src container concurrency allBlobs i rs c log sched y)
  note 1 = step
  show ?case
  proof (cases "i < int (length allBlobs)")
    case False
    then show ?thesis using 1 by auto
  next
    case True
    let ?batch = "slice allBlobs i (i + concurrency)"
    let ?out = "awaitAll ix src container i ?batch (started ?batch) c
                    (log @ BatchStart ?batch # map (\<lambda>j. Began (i + int j)) [0..<length ?batch]) sched"
    have ok: "batchCounterOk (MAX_CONSECUTIVE_TIMEOUTS ix) ?out"
      by (rule awaitAll_counter [OF "1"(3)])
    show ?thesis
    proof (cases ?out)
      case (AllSettled rs1 c1 log1 sched1)
      then have "batchLoop' ix src container concurrency allBlobs (i + concurrency) (rs @ rs1) c1 log1 sched1 = Some y"
        using "1"(2) True by (simp add: Let_def)
      moreover have "int c1 < MAX_CONSECUTIVE_TIMEOUTS ix" using ok AllSettled by simp
      ultimately show ?thesis by (rule "1"(1))
    next
      case (Exited c1 log1)
      then show ?thesis using "1"(2) True ok by (auto simp: Let_def)
    next
      case (Waiting c1 log1)
      then show ?thesis using "1"(2) True ok by (auto simp: Let_def)
    qed
  qed
qed

text \<open>Once the process has exited, what the schedule would have brought afterwards changes
  nothing; a batch and a loop that have come to their end leave it unread.\<close>

lemma awaitAll_append:
  "awaitAll ix src container i batch ts c log sched = out \<Longrightarrow>
   awaitAll ix src container i batch ts c log (sched @ ext) =
     (case out of
        AllSettled rs c' log' sched' \<Rightarrow> AllSettled rs c' log' (sched' @ ext)
      | Exited c' log' \<Rightarrow> Exited c' log'
      | Waiting c' log' \<Rightarrow> awaitAll ix src container i batch ts c log (sched @ ext))"
proof (induction sched arbitrary: ts c log out)
  case Nil
  then show ?case by (cases ext) (auto split: if_splits)
next
  case (Cons j sched)
  show ?case
  proof (cases "list_all isDone ts")
    case True
    then show ?thesis using Cons.prems by auto
  next
    case notall: False
    show ?thesis
    proof (cases "j < length ts \<and> j < length batch \<and> \<not> isDone (ts ! j)")
      case False
      then have "awaitAll ix src container i batch ts c log sched = out"
        using Cons.prems notall by auto
      from Cons.IH [OF this] show ?thesis using False notall
        by (cases out) auto
    next
      case True
      obtain c1 t1 where st: "taskStep ix src container (batch ! j) c (ts ! j) = (c1, t1)"
        by (cases "taskStep ix src container (batch ! j) c (ts ! j)")
      show ?thesis
      proof (cases t1)
        case None
        then show ?thesis using st True notall Cons.prems by auto
      next
        case (Some t)
        then have "awaitAll ix src container i batch (ts[j := t]) c1
                     (log @ observe ix src (batch ! j) (i + int j) (ts ! j) @ announce (i + int j) t)
                     sched = out"
          using st True notall Cons.prems by auto
        from Cons.IH [OF this] show ?thesis using st True notall Some
          by (cases out) auto
      qed
    qed
  qed
qed


lemma batchLoop_append:
  "batchLoop ix src container concurrency allBlobs i rs c log sched = Some y \<Longrightarrow>
   \<forall>c' log'. y \<noteq> LoopWaiting c' log' \<Longrightarrow>
   batchLoop ix src container concurrency allBlobs i rs c log (sched @ ext) =
     Some (case y of LoopDone rs' c' log' sched' \<Rightarrow> LoopDone rs' c' log' (sched' @ ext)
           | LoopExited c' log' \<Rightarrow> LoopExited c' log'
           | LoopWaiting c' log' \<Rightarrow> LoopWaiting c' log')"
proof (induct rule: batchLoop.raw_induct [rotated 1, consumes 1, case_names step])
  case (step batchLoop' ix src container concurrency allBlobs i rs c log sched y)
  show ?case
  proof (cases "i < int (length allBlobs)")
    case False
    then show ?thesis using step(2) by (subst batchLoop.simps) auto
  next
    case True
    let ?batch = "slice allBlobs i (i + concurrency)"
    let ?log = "log @ BatchStart ?batch # map (\<lambda>j. Began (i + int j)) [0..<length ?batch]"
    let ?out = "awaitAll ix src container i ?batch (started ?batch) c ?log sched"
    note ap = awaitAll_append [where ext = ext, OF refl [of ?out]]
    show ?thesis
    proof (cases ?out)
      case (AllSettled rs1 c1 log1 sched1)
      then have "batchLoop' ix src container concurrency allBlobs (i + concurrency) (rs @ rs1)
                   c1 log1 sched1 = Some y"
        using step(2) True by (simp add: Let_def)
      from step(1) [OF this step(3)] show ?thesis
        using True AllSettled ap by (subst batchLoop.simps) (simp add: Let_def)
    next
      case (Exited c1 log1)
      then show ?thesis using step(2) True ap
        by (subst batchLoop.simps) (auto simp: Let_def)
    next
      case (Waiting c1 log1)
      then show ?thesis using step(2,3) True by (auto simp: Let_def)
    qed
  qed
qed


lemma indexSource_append:
  assumes "indexSourceMhtmlFiles ix src concurrency dryRun w = Some (out, w')"
      and "out \<noteq> Pending"
  shows "indexSourceMhtmlFiles ix src concurrency dryRun (w\<lparr>schedule := schedule w @ ext\<rparr>) =
           Some (out, if out = ProcessExited then w' else w'\<lparr>schedule := schedule w' @ ext\<rparr>)"
proof (cases "(if \<not> dryRun then getProperties ix else None)")
  case (Some e)
  then show ?thesis using assms by (auto simp: indexSourceMhtmlFiles_def split: if_splits)
next
  case None
  show ?thesis
  proof (cases "listBlobsFlat ix (containerName src) (blobPrefix src)")
    case (Inl e)
    then show ?thesis using assms None by (auto simp: indexSourceMhtmlFiles_def)
  next
    case (Inr listed)
    let ?all = "filter (\<lambda>name. endsWith name ''.mhtml'') listed"
    show ?thesis
    proof (cases "?all = [] \<or> dryRun")
      case True
      then show ?thesis using assms None Inr
        by (auto simp: indexSourceMhtmlFiles_def Let_def split: if_splits)
    next
      case False
      then obtain y where y: "batchLoop ix src (containerName src) concurrency ?all 0 []
          (consecutiveTimeouts w) (trace w) (schedule w) = Some y"
        using assms None Inr
        by (auto simp: indexSourceMhtmlFiles_def Let_def split: option.splits)
      have nw: "\<forall>c' log'. y \<noteq> LoopWaiting c' log'"
        using assms None Inr False y by (auto simp: indexSourceMhtmlFiles_def Let_def)
      from batchLoop_append [OF y nw, of ext] show ?thesis
        using assms None Inr False y
        by (cases y) (auto simp: indexSourceMhtmlFiles_def Let_def)
    qed
  qed
qed

lemma processSource_append:
  assumes "processSource ix src concurrency dryRun run w = Some (out, w')"
      and "out \<noteq> Pending"
  shows "processSource ix src concurrency dryRun run (w\<lparr>schedule := schedule w @ ext\<rparr>) =
           Some (out, if out = ProcessExited then w' else w'\<lparr>schedule := schedule w' @ ext\<rparr>)"
proof -
  obtain o1 where o1: "indexSourceMhtmlFiles ix src concurrency dryRun w = Some (o1, w')"
    and rel: "out = (case o1 of Returned r \<Rightarrow> Returned (store src run r) | Threw e \<Rightarrow> Threw e
                     | ProcessExited \<Rightarrow> ProcessExited | Pending \<Rightarrow> Pending)"
    using assms(1)
    by (auto simp: processSource_def split: option.splits outcome.splits prod.splits)
  have "o1 \<noteq> Pending" using rel assms(2) by auto
  from indexSource_append [OF o1 this, of ext] show ?thesis
    using rel by (cases o1) (auto simp: processSource_def)
qed

lemma indexAll_exit_final:
  assumes "indexAllMhtmlFiles ix targetSource concurrency dryRun w = Some (ProcessExited, w')"
  shows "indexAllMhtmlFiles ix targetSource concurrency dryRun (w\<lparr>schedule := schedule w @ ext\<rparr>)
           = Some (ProcessExited, w')"
proof -
  let ?run0 = "\<lparr>qast = None, stock = None,
                 combined = \<lparr>total = 0, success_count = 0, failed = 0\<rparr>\<rparr>"
  let ?w = "w\<lparr>schedule := schedule w @ ext\<rparr>"
  show ?thesis
  proof (cases "targetSource = OnlyQast \<or> targetSource = AllSources")
    case False
    then have t: "targetSource = OnlyStock" by (cases targetSource) auto
    then have "processSource ix Stock concurrency dryRun ?run0 w = Some (ProcessExited, w')"
      using assms by (simp add: indexAllMhtmlFiles_def)
    from processSource_append [OF this, of ext] show ?thesis
      using t by (simp add: indexAllMhtmlFiles_def)
  next
    case True
    obtain o1 w1 where p1: "processSource ix Qast concurrency dryRun ?run0 w = Some (o1, w1)"
      using assms True
      by (cases "processSource ix Qast concurrency dryRun ?run0 w")
         (auto simp: indexAllMhtmlFiles_def)
    show ?thesis
    proof (cases o1)
      case (Returned run1)
      then have t: "targetSource = AllSources"
        and p2: "processSource ix Stock concurrency dryRun run1 w1 = Some (ProcessExited, w')"
        using assms True p1 by (auto simp: indexAllMhtmlFiles_def split: if_splits)
      from processSource_append [OF p1, of ext] Returned
      have "processSource ix Qast concurrency dryRun ?run0 ?w =
              Some (Returned run1, w1\<lparr>schedule := schedule w1 @ ext\<rparr>)" by simp
      moreover from processSource_append [OF p2, of ext]
      have "processSource ix Stock concurrency dryRun run1 (w1\<lparr>schedule := schedule w1 @ ext\<rparr>)
              = Some (ProcessExited, w')" by simp
      ultimately show ?thesis using t by (simp add: indexAllMhtmlFiles_def)
    next
      case (Threw e)
      then show ?thesis using assms True p1 by (auto simp: indexAllMhtmlFiles_def)
    next
      case ProcessExited
      then have "w1 = w'" using assms True p1 by (auto simp: indexAllMhtmlFiles_def)
      with processSource_append [OF p1, of ext] ProcessExited show ?thesis
        using True by (auto simp: indexAllMhtmlFiles_def)
    next
      case Pending
      then show ?thesis using assms True p1 by (auto simp: indexAllMhtmlFiles_def)
    qed
  qed
qed

lemma indexSource_counter:
  assumes "indexSourceMhtmlFiles ix src concurrency dryRun w = Some (out, w')"
      and "int (consecutiveTimeouts w) < MAX_CONSECUTIVE_TIMEOUTS ix"
  shows "if out = ProcessExited
         then int (consecutiveTimeouts w') = MAX_CONSECUTIVE_TIMEOUTS ix
         else int (consecutiveTimeouts w') < MAX_CONSECUTIVE_TIMEOUTS ix"
proof (cases "(if \<not> dryRun then getProperties ix else None)")
  case (Some e)
  then show ?thesis using assms by (auto simp: indexSourceMhtmlFiles_def split: if_splits)
next
  case None
  show ?thesis
  proof (cases "listBlobsFlat ix (containerName src) (blobPrefix src)")
    case (Inl e)
    then show ?thesis using assms None by (auto simp: indexSourceMhtmlFiles_def)
  next
    case (Inr listed)
    let ?all = "filter (\<lambda>name. endsWith name ''.mhtml'') listed"
    show ?thesis
    proof (cases "?all = [] \<or> dryRun")
      case True
      then show ?thesis using assms None Inr
        by (auto simp: indexSourceMhtmlFiles_def Let_def split: if_splits)
    next
      case False
      then obtain y where y: "batchLoop ix src (containerName src) concurrency ?all 0 []
          (consecutiveTimeouts w) (trace w) (schedule w) = Some y"
        using assms None Inr
        by (auto simp: indexSourceMhtmlFiles_def Let_def split: option.splits)
      from batchLoop_counter [OF y assms(2)] show ?thesis
        using assms None Inr False y
        by (cases y) (auto simp: indexSourceMhtmlFiles_def Let_def)
    qed
  qed
qed

lemma processSource_counter:
  assumes "processSource ix src concurrency dryRun run w = Some (out, w')"
      and "int (consecutiveTimeouts w) < MAX_CONSECUTIVE_TIMEOUTS ix"
  shows "if out = ProcessExited
         then int (consecutiveTimeouts w') = MAX_CONSECUTIVE_TIMEOUTS ix
         else int (consecutiveTimeouts w') < MAX_CONSECUTIVE_TIMEOUTS ix"
proof -
  obtain o1 where o1: "indexSourceMhtmlFiles ix src concurrency dryRun w = Some (o1, w')"
    and rel: "(out = ProcessExited) = (o1 = ProcessExited)"
    using assms(1)
    by (auto simp: processSource_def split: option.splits outcome.splits prod.splits)
  from indexSource_counter [OF o1 assms(2)] rel show ?thesis by simp
qed

lemma indexAll_counter:
  assumes "indexAllMhtmlFiles ix targetSource concurrency dryRun w = Some (out, w')"
      and "int (consecutiveTimeouts w) < MAX_CONSECUTIVE_TIMEOUTS ix"
  shows "if out = ProcessExited
         then int (consecutiveTimeouts w') = MAX_CONSECUTIVE_TIMEOUTS ix
         else int (consecutiveTimeouts w') < MAX_CONSECUTIVE_TIMEOUTS ix"
proof -
  let ?run0 = "\<lparr>qast = None, stock = None,
                 combined = \<lparr>total = 0, success_count = 0, failed = 0\<rparr>\<rparr>"
  show ?thesis
  proof (cases "targetSource = OnlyQast \<or> targetSource = AllSources")
    case False
    then have t: "targetSource = OnlyStock" by (cases targetSource) auto
    then have "processSource ix Stock concurrency dryRun ?run0 w = Some (out, w')"
      using assms by (simp add: indexAllMhtmlFiles_def)
    from processSource_counter [OF this assms(2)] show ?thesis .
  next
    case True
    obtain o1 w1 where p1: "processSource ix Qast concurrency dryRun ?run0 w = Some (o1, w1)"
      using assms True
      by (cases "processSource ix Qast concurrency dryRun ?run0 w")
         (auto simp: indexAllMhtmlFiles_def)
    note c1 = processSource_counter [OF p1 assms(2)]
    show ?thesis
    proof (cases "\<exists>run1. o1 = Returned run1 \<and> targetSource = AllSources")
      case True
      then obtain run1 where r: "o1 = Returned run1" "targetSource = AllSources" by blast
      then have p2: "processSource ix Stock concurrency dryRun run1 w1 = Some (out, w')"
        using assms p1 by (simp add: indexAllMhtmlFiles_def)
      have "int (consecutiveTimeouts w1) < MAX_CONSECUTIVE_TIMEOUTS ix" using c1 r by simp
      from processSource_counter [OF p2 this] show ?thesis .
    next
      case False
      then have "out = o1 \<and> w' = w1" using assms p1 True
        by (cases o1) (auto simp: indexAllMhtmlFiles_def split: if_splits)
      then show ?thesis using c1 by simp
    qed
  qed
qed


text \<open>
  C9. The counter after an attempt: 0 after an accepted response, one more after a
  timeout, and what it was after a response that is not ok, a network failure or an
  exception; a member of a batch changes it through its attempts only, not when its
  start delay, its download or a backoff ends. So a
  timeout, a 503 and then a timeout of the next submission count as two consecutive
  timeouts: with the ceiling two above the counter, the first submission returns its HTTP
  failure with the counter one higher, and the process exits at the first timeout of the
  second.
\<close>

theorem http_failure_keeps_counter:
  assumes "\<not> ok r" and "int c + 2 = ceiling" and "2 \<le> maxRetries"
      and "script1 1 = AbortError" and "script1 2 = Responded r" and "script2 1 = AbortError"
  shows "fst (afterAttempt ceiling name src m k c0 outcome) =
           (case outcome of
              Responded resp \<Rightarrow> if ok resp then 0 else c0
            | AbortError \<Rightarrow> c0 + 1
            | FetchFailed e \<Rightarrow> c0
            | SetupThrew e \<Rightarrow> c0)
       \<and> fst (taskStep ix src container name c0 t) =
           (case t of
              Attempting a \<Rightarrow>
                fst (afterAttempt (MAX_CONSECUTIVE_TIMEOUTS ix) name src (MAX_RETRIES ix) a c0
                       (fetch ix src name a))
            | _ \<Rightarrow> c0)
       \<and> indexMhtmlFile ceiling c name1 src maxRetries script1 =
           (Some (httpFailure name1 src r), c + 1, [Try 1, Sleep 2000, Try 2])
       \<and> indexMhtmlFile ceiling (c + 1) name2 src maxRetries script2 = (None, c + 2, [Try 1])"
proof (intro conjI)
  show "fst (afterAttempt ceiling name src m k c0 outcome) =
           (case outcome of
              Responded resp \<Rightarrow> if ok resp then 0 else c0
            | AbortError \<Rightarrow> c0 + 1
            | FetchFailed e \<Rightarrow> c0
            | SetupThrew e \<Rightarrow> c0)"
    by (cases outcome) auto
  show "fst (taskStep ix src container name c0 t) =
           (case t of
              Attempting a \<Rightarrow>
                fst (afterAttempt (MAX_CONSECUTIVE_TIMEOUTS ix) name src (MAX_RETRIES ix) a c0
                       (fetch ix src name a))
            | _ \<Rightarrow> c0)"
    by (cases t) (simp_all split: option.splits prod.splits step.splits)
  show "indexMhtmlFile ceiling c name1 src maxRetries script1 =
           (Some (httpFailure name1 src r), c + 1, [Try 1, Sleep 2000, Try 2])"
    using assms by (simp add: indexMhtmlFile_def retryLoop.simps)
  show "indexMhtmlFile ceiling (c + 1) name2 src maxRetries script2 = (None, c + 2, [Try 1])"
    using assms by (simp add: indexMhtmlFile_def retryLoop.simps)
qed

lemma keeps1: "timeoutThenBusy 1 = AbortError" by (simp add: timeoutThenBusy_def)
lemma keeps2: "timeoutThenBusy 2 = Responded busy" by (simp add: timeoutThenBusy_def)

theorem http_failure_keeps_counter_witness:
  "\<not> ok busy \<and> int 0 + 2 = (2::int) \<and> (2::int) \<le> 3
   \<and> timeoutThenBusy 1 = AbortError \<and> timeoutThenBusy 2 = Responded busy
   \<and> indexMhtmlFile 2 0 ''a.mhtml'' Qast 3 timeoutThenBusy =
        (Some \<lparr>success = False, blobName = ''a.mhtml'', source = Qast,
               error = Some ''HTTP 503: busy'', statusCode = Some 503\<rparr>,
         1, [Try 1, Sleep 2000, Try 2])
   \<and> indexMhtmlFile 2 1 ''b.mhtml'' Qast 3 timeoutThenBusy = (None, 2, [Try 1])"
proof -
  have h1: "\<not> ok busy" by (simp add: busy_def)
  have h2: "int 0 + 2 = (2::int)" by simp
  have h3: "(2::int) \<le> 3" by simp
  note inst = http_failure_keeps_counter [where ?script1.0 = timeoutThenBusy
      and ?script2.0 = timeoutThenBusy and ?name1.0 = "''a.mhtml''" and ?name2.0 = "''b.mhtml''"
      and src = Qast, OF h1 h2 h3 keeps1 keeps2 keeps1]
  have "showInt 503 = ''503''"
    by (simp add: showInt_def showNat.simps digit_def)
  then have a: "indexMhtmlFile 2 0 ''a.mhtml'' Qast 3 timeoutThenBusy =
        (Some \<lparr>success = False, blobName = ''a.mhtml'', source = Qast,
               error = Some ''HTTP 503: busy'', statusCode = Some 503\<rparr>,
         1, [Try 1, Sleep 2000, Try 2])"
    using inst [THEN conjunct2, THEN conjunct2, THEN conjunct1]
    by (simp add: httpFailure_def errorText_def busy_def)
  have b: "indexMhtmlFile 2 1 ''b.mhtml'' Qast 3 timeoutThenBusy = (None, 2, [Try 1])"
    using inst [THEN conjunct2, THEN conjunct2, THEN conjunct2] by simp
  show ?thesis using h1 h2 h3 keeps1 keeps2 a b by blast
qed

text \<open>
  The counter of a run and the outcomes of its attempts. Whatever the trace gains in a
  batch, in the loop over the batches, in a partition and in the whole run, from a counter
  below the ceiling: counting the outcomes that have been added, in the order in which the
  attempts have ended, gives the counter at the end, reaches the ceiling exactly when the
  process has exited, and then with the last event of the trace, the timeout of an attempt.
  Every outcome is an answer of the endpoint.
\<close>

lemma outcomes_append [simp]: "outcomes (xs @ ys) = outcomes xs @ outcomes ys"
  by (simp add: outcomes_def)

lemma outcomes_simps [simp]:
  "outcomes [] = []"
  "outcomes (BatchStart b # tr) = outcomes tr"
  "outcomes (Began i # tr) = outcomes tr"
  "outcomes (Attempt i k # tr) = outcomes tr"
  "outcomes (Ended i k outcome # tr) = outcome # outcomes tr"
  "outcomes (Settled i # tr) = outcomes tr"
  by (simp_all add: outcomes_def)

lemma outcomes_announce [simp]: "outcomes (announce a t) = []"
  by (cases t) simp_all

lemma outcomes_began [simp]: "outcomes (map (\<lambda>j. Began (f j)) js) = []"
  by (induction js) simp_all

lemma breaker_append:
  "breaker n c xs = (c1, False, r) \<Longrightarrow> r = [] \<and> breaker n c (xs @ ys) = breaker n c1 ys"
  by (induction xs arbitrary: c) (auto split: if_splits)

lemma breaker_then:
  assumes "breaker n c (outcomes e1) = (c1, False, [])"
      and "breaker n c1 (outcomes e2) = (c2, b, [])"
  shows "breaker n c (outcomes (e1 @ e2)) = (c2, b, [])"
  using breaker_append [OF assms(1), of "outcomes e2"] assms(2) by simp

lemma breaker_consecutive:
  "breaker n c xs = (c', b, []) \<Longrightarrow> c' = consecutive c xs"
  by (induction xs arbitrary: c) (auto simp: consecutive_def split: if_splits)

lemma breaker_before:
  "breaker n c xs = (c', b, []) \<Longrightarrow> int c < n \<Longrightarrow> strict_prefix p xs \<Longrightarrow>
   int (consecutive c p) < n"
proof (induction xs arbitrary: c p)
  case Nil
  then show ?case by simp
next
  case (Cons x xs)
  show ?case
  proof (cases p)
    case Nil
    then show ?thesis using Cons.prems by (simp add: consecutive_def)
  next
    case (Cons y p')
    then have y: "y = x" and p': "strict_prefix p' xs" using Cons.prems(3) by auto
    then have "xs \<noteq> []" by auto
    then have low: "\<not> n \<le> int (counted c x)" and rest: "breaker n (counted c x) xs = (c', b, [])"
      using Cons.prems(1) by (auto split: if_splits)
    from Cons.IH [OF rest _ p'] low show ?thesis
      using Cons y by (simp add: consecutive_def)
  qed
qed

lemma counted_le: "counted c x \<le> c + 1"
  by (cases x) auto

lemma breaker_ceiling:
  "breaker n c xs = (c', b, []) \<Longrightarrow> int c < n \<Longrightarrow>
   (if b then int c' = n else int c' < n)"
proof (induction xs arbitrary: c)
  case Nil
  then show ?case by simp
next
  case (Cons x xs)
  show ?case
  proof (cases "n \<le> int (counted c x)")
    case True
    then show ?thesis using Cons.prems counted_le [of c x] by auto
  next
    case False
    then show ?thesis using Cons by auto
  qed
qed

lemma consecutive_timeouts [simp]: "consecutive c (replicate m AbortError) = c + m"
  by (induction m arbitrary: c) (simp_all add: consecutive_def)

lemma consecutive_append [simp]:
  "consecutive c (xs @ ys) = consecutive (consecutive c xs) ys"
  by (simp add: consecutive_def)

lemma consecutive_accepted [simp]:
  "ok r \<Longrightarrow> consecutive c (Responded r # xs) = consecutive 0 xs"
  by (simp add: consecutive_def)

lemma taskStep_breaker:
  assumes "taskStep ix src container name c t = (c', t')"
      and "int c < MAX_CONSECUTIVE_TIMEOUTS ix"
  shows "breaker (MAX_CONSECUTIVE_TIMEOUTS ix) c (outcomes (observe ix src name a t))
           = (c', t' = None, [])
       \<and> (t' = None \<longrightarrow> (\<exists>k. observe ix src name a t = [Ended a k AbortError]))
       \<and> (\<forall>outcome\<in>set (outcomes (observe ix src name a t)).
             \<exists>s nm k. outcome = fetch ix s nm k)"
proof (cases t)
  case (Attempting k)
  show ?thesis
  proof (cases "fetch ix src name k")
    case (Responded r)
    then show ?thesis using assms Attempting by (auto split: if_splits) metis+
  next
    case AbortError
    then show ?thesis using assms Attempting by (auto split: if_splits) metis+
  next
    case (FetchFailed e)
    then show ?thesis using assms Attempting by (auto split: if_splits) metis+
  next
    case (SetupThrew e)
    then show ?thesis using assms Attempting by (auto split: if_splits) metis+
  qed
qed (use assms in \<open>auto split: option.splits\<close>)


lemma awaitAll_breaker:
  "int c < MAX_CONSECUTIVE_TIMEOUTS ix \<Longrightarrow>
   \<exists>ext. batchLog (awaitAll ix src container i batch ts c log sched) = log @ ext
     \<and> breaker (MAX_CONSECUTIVE_TIMEOUTS ix) c (outcomes ext)
          = (batchCounter (awaitAll ix src container i batch ts c log sched),
             batchExited (awaitAll ix src container i batch ts c log sched), [])
     \<and> (batchExited (awaitAll ix src container i batch ts c log sched) \<longrightarrow>
           (\<exists>pre a k. ext = pre @ [Ended a k AbortError]))
     \<and> (\<forall>outcome\<in>set (outcomes ext). \<exists>s nm k. outcome = fetch ix s nm k)"
proof (induction sched arbitrary: ts c log)
  case Nil
  show ?case by (rule exI [of _ "[]"]) simp
next
  case (Cons j sched)
  show ?case
  proof (cases "list_all isDone ts")
    case True
    then show ?thesis by (intro exI [of _ "[]"]) simp
  next
    case notall: False
    show ?thesis
    proof (cases "j < length ts \<and> j < length batch \<and> \<not> isDone (ts ! j)")
      case False
      then have "awaitAll ix src container i batch ts c log (j # sched)
                   = awaitAll ix src container i batch ts c log sched"
        using notall by auto
      then show ?thesis using Cons.IH [OF Cons.prems, of ts log] by simp
    next
      case True
      let ?N = "MAX_CONSECUTIVE_TIMEOUTS ix"
      let ?seen = "observe ix src (batch ! j) (i + int j) (ts ! j)"
      obtain c1 t1 where st: "taskStep ix src container (batch ! j) c (ts ! j) = (c1, t1)"
        by (cases "taskStep ix src container (batch ! j) c (ts ! j)")
      note seen = taskStep_breaker [OF st Cons.prems, of "i + int j"]
      show ?thesis
      proof (cases t1)
        case None
        then have "awaitAll ix src container i batch ts c log (j # sched) = Exited c1 (log @ ?seen)"
          using st True notall by simp
        moreover have "\<exists>pre a k. ?seen = pre @ [Ended a k AbortError]"
          using seen None by (metis append_Nil)
        ultimately show ?thesis using seen None by (intro exI [of _ ?seen]) simp
      next
        case (Some t)
        let ?next = "awaitAll ix src container i batch (ts[j := t]) c1
                       (log @ ?seen @ announce (i + int j) t) sched"
        have eq: "awaitAll ix src container i batch ts c log (j # sched) = ?next"
          using st True notall Some by simp
        have c1: "int c1 < ?N" using taskStep_counter [OF st Cons.prems] Some by simp
        from Cons.IH [OF c1, of "ts[j := t]" "log @ ?seen @ announce (i + int j) t"]
        obtain ext where ext:
          "batchLog ?next = (log @ ?seen @ announce (i + int j) t) @ ext"
          "breaker ?N c1 (outcomes ext) = (batchCounter ?next, batchExited ?next, [])"
          "batchExited ?next \<longrightarrow> (\<exists>pre a k. ext = pre @ [Ended a k AbortError])"
          "\<forall>outcome\<in>set (outcomes ext). \<exists>s nm k. outcome = fetch ix s nm k"
          by blast
        let ?ext = "?seen @ announce (i + int j) t @ ext"
        have 1: "batchLog ?next = log @ ?ext" using ext(1) by simp
        have first: "breaker ?N c (outcomes (?seen @ announce (i + int j) t)) = (c1, False, [])"
          using seen Some by simp
        have 2: "breaker ?N c (outcomes ?ext) = (batchCounter ?next, batchExited ?next, [])"
          using breaker_then [OF first ext(2)] by simp
        have 3: "batchExited ?next \<longrightarrow> (\<exists>pre a k. ?ext = pre @ [Ended a k AbortError])"
        proof
          assume "batchExited ?next"
          with ext(3) obtain pre a k where "ext = pre @ [Ended a k AbortError]" by blast
          then have "?ext = (?seen @ announce (i + int j) t @ pre) @ [Ended a k AbortError]"
            by simp
          then show "\<exists>pre a k. ?ext = pre @ [Ended a k AbortError]" by blast
        qed
        have 4: "\<forall>outcome\<in>set (outcomes ?ext). \<exists>s nm k. outcome = fetch ix s nm k"
          using seen ext(4) by auto
        from 1 2 3 4 show ?thesis unfolding eq by blast
      qed
    qed
  qed
qed

lemma batchLoop_breaker:
  "batchLoop ix src container concurrency allBlobs i rs c log sched = Some y \<Longrightarrow>
   int c < MAX_CONSECUTIVE_TIMEOUTS ix \<Longrightarrow>
   \<exists>ext. loopLog y = log @ ext
     \<and> breaker (MAX_CONSECUTIVE_TIMEOUTS ix) c (outcomes ext) = (loopCounter y, loopExited y, [])
     \<and> (loopExited y \<longrightarrow> (\<exists>pre a k. ext = pre @ [Ended a k AbortError]))
     \<and> (\<forall>outcome\<in>set (outcomes ext). \<exists>s nm k. outcome = fetch ix s nm k)"
proof (induct rule: batchLoop.raw_induct [rotated 1, consumes 1, case_names step])
  case (step batchLoop' ix src container concurrency allBlobs i rs c log sched y)
  let ?N = "MAX_CONSECUTIVE_TIMEOUTS ix"
  show ?case
  proof (cases "i < int (length allBlobs)")
    case False
    then have "y = LoopDone rs c log sched" using step(2) by simp
    then show ?thesis by (intro exI [of _ "[]"]) simp
  next
    case True
    let ?B = "slice allBlobs i (i + concurrency)"
    let ?head = "BatchStart ?B # map (\<lambda>j. Began (i + int j)) [0..<length ?B]"
    let ?out = "awaitAll ix src container i ?B (started ?B) c (log @ ?head) sched"
    from awaitAll_breaker [OF step(3), of src container i ?B "started ?B" "log @ ?head" sched]
    obtain ext1 where ext1:
      "batchLog ?out = (log @ ?head) @ ext1"
      "breaker ?N c (outcomes ext1) = (batchCounter ?out, batchExited ?out, [])"
      "batchExited ?out \<longrightarrow> (\<exists>pre a k. ext1 = pre @ [Ended a k AbortError])"
      "\<forall>outcome\<in>set (outcomes ext1). \<exists>s nm k. outcome = fetch ix s nm k"
      by blast
    have head: "outcomes (?head @ ext1) = outcomes ext1" by simp
    show ?thesis
    proof (cases ?out)
      case (AllSettled rs1 c1 log1 sched1)
      then have rec: "batchLoop' ix src container concurrency allBlobs (i + concurrency)
                   (rs @ rs1) c1 log1 sched1 = Some y"
        using step(2) True by (simp add: Let_def)
      have log1: "log1 = log @ ?head @ ext1" using ext1(1) AllSettled by simp
      have first: "breaker ?N c (outcomes (?head @ ext1)) = (c1, False, [])"
        using ext1(2) AllSettled head by simp
      have "int c1 < ?N" using breaker_ceiling [OF ext1(2) step(3)] AllSettled by simp
      from step(1) [OF rec this] obtain ext2 where ext2:
        "loopLog y = log1 @ ext2"
        "breaker ?N c1 (outcomes ext2) = (loopCounter y, loopExited y, [])"
        "loopExited y \<longrightarrow> (\<exists>pre a k. ext2 = pre @ [Ended a k AbortError])"
        "\<forall>outcome\<in>set (outcomes ext2). \<exists>s nm k. outcome = fetch ix s nm k"
        by blast
      let ?ext = "(?head @ ext1) @ ext2"
      have 1: "loopLog y = log @ ?ext" using ext2(1) log1 by simp
      note 2 = breaker_then [OF first ext2(2)]
      have 3: "loopExited y \<longrightarrow> (\<exists>pre a k. ?ext = pre @ [Ended a k AbortError])"
      proof
        assume "loopExited y"
        with ext2(3) obtain pre a k where "ext2 = pre @ [Ended a k AbortError]" by blast
        then have "?ext = ((?head @ ext1) @ pre) @ [Ended a k AbortError]" by simp
        then show "\<exists>pre a k. ?ext = pre @ [Ended a k AbortError]" by blast
      qed
      have 4: "\<forall>outcome\<in>set (outcomes ?ext). \<exists>s nm k. outcome = fetch ix s nm k"
        using ext1(4) ext2(4) unfolding outcomes_append head by auto
      from 1 2 3 4 show ?thesis by blast
    next
      case (Exited c1 log1)
      then have y: "y = LoopExited c1 log1" using step(2) True by (simp add: Let_def)
      let ?ext = "?head @ ext1"
      have 1: "loopLog y = log @ ?ext" using ext1(1) Exited y by simp
      have 2: "breaker ?N c (outcomes ?ext) = (loopCounter y, loopExited y, [])"
        using ext1(2) Exited y head by simp
      have 3: "loopExited y \<longrightarrow> (\<exists>pre a k. ?ext = pre @ [Ended a k AbortError])"
      proof
        assume "loopExited y"
        from ext1(3) Exited obtain pre a k where "ext1 = pre @ [Ended a k AbortError]" by auto
        then have "?ext = (?head @ pre) @ [Ended a k AbortError]" by simp
        then show "\<exists>pre a k. ?ext = pre @ [Ended a k AbortError]" by blast
      qed
      have 4: "\<forall>outcome\<in>set (outcomes ?ext). \<exists>s nm k. outcome = fetch ix s nm k"
        using ext1(4) unfolding head by auto
      from 1 2 3 4 show ?thesis by blast
    next
      case (Waiting c1 log1)
      then have y: "y = LoopWaiting c1 log1" using step(2) True by (simp add: Let_def)
      let ?ext = "?head @ ext1"
      have 1: "loopLog y = log @ ?ext" using ext1(1) Waiting y by simp
      have 2: "breaker ?N c (outcomes ?ext) = (loopCounter y, loopExited y, [])"
        using ext1(2) Waiting y head by simp
      have 3: "loopExited y \<longrightarrow> (\<exists>pre a k. ?ext = pre @ [Ended a k AbortError])"
        using y by simp
      have 4: "\<forall>outcome\<in>set (outcomes ?ext). \<exists>s nm k. outcome = fetch ix s nm k"
        using ext1(4) unfolding head by auto
      from 1 2 3 4 show ?thesis by blast
    qed
  qed
qed


lemma indexSource_breaker:
  assumes "indexSourceMhtmlFiles ix src concurrency dryRun w = Some (out, w')"
      and "int (consecutiveTimeouts w) < MAX_CONSECUTIVE_TIMEOUTS ix"
  shows "\<exists>ext. trace w' = trace w @ ext
     \<and> breaker (MAX_CONSECUTIVE_TIMEOUTS ix) (consecutiveTimeouts w) (outcomes ext)
          = (consecutiveTimeouts w', out = ProcessExited, [])
     \<and> (out = ProcessExited \<longrightarrow> (\<exists>pre a k. ext = pre @ [Ended a k AbortError]))
     \<and> (\<forall>outcome\<in>set (outcomes ext). \<exists>s nm k. outcome = fetch ix s nm k)"
proof -
  have same: ?thesis if "w' = w" "out \<noteq> ProcessExited"
    using that by (intro exI [of _ "[]"]) simp
  show ?thesis
  proof (cases "(if \<not> dryRun then getProperties ix else None)")
    case (Some e)
    then show ?thesis using assms(1) same
      by (auto simp: indexSourceMhtmlFiles_def split: if_splits)
  next
    case None
    show ?thesis
    proof (cases "listBlobsFlat ix (containerName src) (blobPrefix src)")
      case (Inl e)
      then show ?thesis using assms(1) None same by (auto simp: indexSourceMhtmlFiles_def)
    next
      case (Inr listed)
      let ?all = "filter (\<lambda>name. endsWith name ''.mhtml'') listed"
      show ?thesis
      proof (cases "?all = [] \<or> dryRun")
        case True
        then show ?thesis using assms(1) None Inr same
          by (auto simp: indexSourceMhtmlFiles_def Let_def split: if_splits)
      next
        case False
        then obtain y where y: "batchLoop ix src (containerName src) concurrency ?all 0 []
            (consecutiveTimeouts w) (trace w) (schedule w) = Some y"
          using assms(1) None Inr
          by (auto simp: indexSourceMhtmlFiles_def Let_def split: option.splits)
        have fin: "trace w' = loopLog y" "consecutiveTimeouts w' = loopCounter y"
          "(out = ProcessExited) = loopExited y"
          using assms(1) None Inr False y
          by (cases y; auto simp: indexSourceMhtmlFiles_def Let_def)+
        from batchLoop_breaker [OF y assms(2)] show ?thesis unfolding fin .
      qed
    qed
  qed
qed

lemma processSource_breaker:
  assumes "processSource ix src concurrency dryRun run w = Some (out, w')"
      and "int (consecutiveTimeouts w) < MAX_CONSECUTIVE_TIMEOUTS ix"
  shows "\<exists>ext. trace w' = trace w @ ext
     \<and> breaker (MAX_CONSECUTIVE_TIMEOUTS ix) (consecutiveTimeouts w) (outcomes ext)
          = (consecutiveTimeouts w', out = ProcessExited, [])
     \<and> (out = ProcessExited \<longrightarrow> (\<exists>pre a k. ext = pre @ [Ended a k AbortError]))
     \<and> (\<forall>outcome\<in>set (outcomes ext). \<exists>s nm k. outcome = fetch ix s nm k)"
proof -
  obtain o1 where o1: "indexSourceMhtmlFiles ix src concurrency dryRun w = Some (o1, w')"
    and rel: "(out = ProcessExited) = (o1 = ProcessExited)"
    using assms(1)
    by (auto simp: processSource_def split: option.splits outcome.splits prod.splits)
  from indexSource_breaker [OF o1 assms(2)] show ?thesis unfolding rel .
qed

lemma indexAll_breaker:
  assumes "indexAllMhtmlFiles ix targetSource concurrency dryRun w = Some (out, w')"
      and "int (consecutiveTimeouts w) < MAX_CONSECUTIVE_TIMEOUTS ix"
  shows "\<exists>ext. trace w' = trace w @ ext
     \<and> breaker (MAX_CONSECUTIVE_TIMEOUTS ix) (consecutiveTimeouts w) (outcomes ext)
          = (consecutiveTimeouts w', out = ProcessExited, [])
     \<and> (out = ProcessExited \<longrightarrow> (\<exists>pre a k. ext = pre @ [Ended a k AbortError]))
     \<and> (\<forall>outcome\<in>set (outcomes ext). \<exists>s nm k. outcome = fetch ix s nm k)"
proof -
  let ?N = "MAX_CONSECUTIVE_TIMEOUTS ix"
  let ?run0 = "\<lparr>qast = None, stock = None,
                 combined = \<lparr>total = 0, success_count = 0, failed = 0\<rparr>\<rparr>"
  show ?thesis
  proof (cases "targetSource = OnlyQast \<or> targetSource = AllSources")
    case False
    then have t: "targetSource = OnlyStock" by (cases targetSource) auto
    then have "processSource ix Stock concurrency dryRun ?run0 w = Some (out, w')"
      using assms by (simp add: indexAllMhtmlFiles_def)
    from processSource_breaker [OF this assms(2)] show ?thesis .
  next
    case True
    obtain o1 w1 where p1: "processSource ix Qast concurrency dryRun ?run0 w = Some (o1, w1)"
      using assms True
      by (cases "processSource ix Qast concurrency dryRun ?run0 w")
         (auto simp: indexAllMhtmlFiles_def)
    note b1 = processSource_breaker [OF p1 assms(2)]
    show ?thesis
    proof (cases "\<exists>run1. o1 = Returned run1 \<and> targetSource = AllSources")
      case True
      then obtain run1 where r: "o1 = Returned run1" "targetSource = AllSources" by blast
      then have p2: "processSource ix Stock concurrency dryRun run1 w1 = Some (out, w')"
        using assms p1 by (simp add: indexAllMhtmlFiles_def)
      from b1 r obtain ext1 where ext1:
        "trace w1 = trace w @ ext1"
        "breaker ?N (consecutiveTimeouts w) (outcomes ext1) = (consecutiveTimeouts w1, False, [])"
        "\<forall>outcome\<in>set (outcomes ext1). \<exists>s nm k. outcome = fetch ix s nm k"
        by auto
      have "int (consecutiveTimeouts w1) < ?N"
        using breaker_ceiling [OF ext1(2) assms(2)] by simp
      from processSource_breaker [OF p2 this] obtain ext2 where ext2:
        "trace w' = trace w1 @ ext2"
        "breaker ?N (consecutiveTimeouts w1) (outcomes ext2)
           = (consecutiveTimeouts w', out = ProcessExited, [])"
        "out = ProcessExited \<longrightarrow> (\<exists>pre a k. ext2 = pre @ [Ended a k AbortError])"
        "\<forall>outcome\<in>set (outcomes ext2). \<exists>s nm k. outcome = fetch ix s nm k"
        by blast
      let ?ext = "ext1 @ ext2"
      have 1: "trace w' = trace w @ ?ext" using ext1(1) ext2(1) by simp
      note 2 = breaker_then [OF ext1(2) ext2(2)]
      have 3: "out = ProcessExited \<longrightarrow> (\<exists>pre a k. ?ext = pre @ [Ended a k AbortError])"
      proof
        assume "out = ProcessExited"
        with ext2(3) obtain pre a k where "ext2 = pre @ [Ended a k AbortError]" by blast
        then have "?ext = (ext1 @ pre) @ [Ended a k AbortError]" by simp
        then show "\<exists>pre a k. ?ext = pre @ [Ended a k AbortError]" by blast
      qed
      have 4: "\<forall>outcome\<in>set (outcomes ?ext). \<exists>s nm k. outcome = fetch ix s nm k"
        using ext1(3) ext2(4) by auto
      from 1 2 3 4 show ?thesis by blast
    next
      case False
      then have "out = o1 \<and> w' = w1" using assms p1 True
        by (cases o1) (auto simp: indexAllMhtmlFiles_def split: if_splits)
      then show ?thesis using b1 by simp
    qed
  qed
qed

lemma all_timeouts:
  "\<forall>x\<in>set xs. x = AbortError \<Longrightarrow> xs = replicate (length xs) AbortError"
  by (induction xs) auto

text \<open>
  C1. The circuit breaker. Take a run of \<open>indexAllMhtmlFiles\<close>, with any selector, any
  concurrency and any schedule of the members of its batches, that starts with the counter
  below the ceiling \<open>N = MAX_CONSECUTIVE_TIMEOUTS\<close>, and take the outcomes of its attempts in
  the order in which they have ended, over all the documents, batches and partitions of the
  run. Counting them as the specification says gives the counter with which the run ends,
  reaches \<open>N\<close> exactly when the process has exited, and leaves no outcome over: the counter
  of the indexer is the number of timeouts since the last accepted submission of the run
  (since its start when there is none, on top of the counter at the start), it was below
  \<open>N\<close> after every outcome but the last, and the process has exited exactly when the last
  outcome has brought it to \<open>N\<close>. When the process has exited, the last event of the trace is
  that timeout, so that no attempt begins or ends after it, and the run ends in the same
  way whatever the schedule would have brought afterwards.

  A run whose outcomes end with an accepted submission and \<open>m < N\<close> timeouts after it has
  not exited, whatever has come before, and its counter is \<open>m\<close>: so \<open>N - 1\<close> timeouts, a
  success and \<open>N - 1\<close> timeouts do not trip the breaker, whatever the retry budget is and
  however the timeouts are spread over the documents. With an endpoint that never answers
  in time every outcome is a timeout; when the run starts with the counter at \<open>c\<close>, at most
  \<open>N - c\<close> attempts end, and the process has exited exactly when \<open>N - c\<close> have.

  For one attempt: it makes the process exit exactly when it is a timeout that brings the
  counter to the ceiling, and an accepted response sets the counter to 0; and with \<open>n\<close>
  below the ceiling, \<open>n\<close> timeouts and a success of one call of \<open>indexMhtmlFile\<close> followed by
  \<open>n\<close> timeouts of another, with a budget of \<open>n\<close>, make neither exit.
\<close>

theorem circuit_breaker:
  assumes run: "indexAllMhtmlFiles ix targetSource concurrency dryRun w = Some (out, w')"
      and start: "int (consecutiveTimeouts w) < MAX_CONSECUTIVE_TIMEOUTS ix"
      and accepted: "ok resp"
      and few: "int n < ceiling" "int n < maxRetries"
      and first: "\<forall>j. 1 \<le> j \<and> j \<le> int n \<longrightarrow> script1 j = AbortError"
                 "script1 (int n + 1) = Responded resp"
      and second: "\<forall>j. 1 \<le> j \<and> j \<le> int n \<longrightarrow> script2 j = AbortError"
  shows "trace w' = trace w @ added w w'
       \<and> breaker (MAX_CONSECUTIVE_TIMEOUTS ix) (consecutiveTimeouts w) (outcomes (added w w'))
            = (consecutiveTimeouts w', out = ProcessExited, [])
       \<and> consecutiveTimeouts w' = consecutive (consecutiveTimeouts w) (outcomes (added w w'))
       \<and> (\<forall>p. strict_prefix p (outcomes (added w w')) \<longrightarrow>
             int (consecutive (consecutiveTimeouts w) p) < MAX_CONSECUTIVE_TIMEOUTS ix)
       \<and> (out = ProcessExited) = (int (consecutiveTimeouts w') = MAX_CONSECUTIVE_TIMEOUTS ix)
       \<and> (out = ProcessExited \<longrightarrow>
            (\<exists>pre i k. added w w' = pre @ [Ended i k AbortError]) \<and>
            (\<forall>later. indexAllMhtmlFiles ix targetSource concurrency dryRun
                        (w\<lparr>schedule := schedule w @ later\<rparr>) = Some (ProcessExited, w')))
       \<and> (\<forall>pre r m. ok r \<and> int m < MAX_CONSECUTIVE_TIMEOUTS ix \<and>
             outcomes (added w w') = pre @ Responded r # replicate m AbortError \<longrightarrow>
             out \<noteq> ProcessExited \<and> consecutiveTimeouts w' = m)
       \<and> ((\<forall>s nm a. fetch ix s nm a = AbortError) \<longrightarrow>
            outcomes (added w w') = replicate (length (outcomes (added w w'))) AbortError \<and>
            int (consecutiveTimeouts w + length (outcomes (added w w')))
              \<le> MAX_CONSECUTIVE_TIMEOUTS ix \<and>
            (out = ProcessExited) =
              (int (consecutiveTimeouts w + length (outcomes (added w w')))
                 = MAX_CONSECUTIVE_TIMEOUTS ix))
       \<and> (snd (afterAttempt ceiling name src m k c outcome) = ProcessExit)
            = (outcome = AbortError \<and> ceiling \<le> int c + 1)
       \<and> afterAttempt ceiling name src m k c (Responded resp)
            = (0, Return (okResult name src resp))
       \<and> (\<exists>tr1 tr2. attempts tr1 = n + 1 \<and> attempts tr2 = n \<and>
            indexMhtmlFile ceiling 0 name1 src maxRetries script1
              = (Some (okResult name1 src resp), 0, tr1) \<and>
            indexMhtmlFile ceiling 0 name2 src (int n) script2
              = (Some (retriesExhausted name2 src (int n)), n, tr2))"
proof -
  let ?N = "MAX_CONSECUTIVE_TIMEOUTS ix"
  let ?c = "consecutiveTimeouts w"
  from indexAll_breaker [OF run start] obtain ext where ext:
    "trace w' = trace w @ ext"
    "breaker ?N ?c (outcomes ext) = (consecutiveTimeouts w', out = ProcessExited, [])"
    "out = ProcessExited \<longrightarrow> (\<exists>pre a k. ext = pre @ [Ended a k AbortError])"
    "\<forall>outcome\<in>set (outcomes ext). \<exists>s nm k. outcome = fetch ix s nm k"
    by blast
  have added: "added w w' = ext" using ext(1) by (simp add: added_def)
  note counter = breaker_consecutive [OF ext(2)]
  note ceiling = breaker_ceiling [OF ext(2) start]
  have exit: "(out = ProcessExited) = (int (consecutiveTimeouts w') = ?N)"
    using ceiling by (cases "out = ProcessExited") simp_all
  have before: "\<forall>p. strict_prefix p (outcomes ext) \<longrightarrow> int (consecutive ?c p) < ?N"
    using breaker_before [OF ext(2) start] by blast
  have final: "out = ProcessExited \<longrightarrow>
            (\<forall>later. indexAllMhtmlFiles ix targetSource concurrency dryRun
                        (w\<lparr>schedule := schedule w @ later\<rparr>) = Some (ProcessExited, w'))"
    using run indexAll_exit_final by blast
  have recovered: "\<forall>pre r m. ok r \<and> int m < ?N \<and>
             outcomes ext = pre @ Responded r # replicate m AbortError \<longrightarrow>
             out \<noteq> ProcessExited \<and> consecutiveTimeouts w' = m"
  proof (intro allI impI)
    fix pre r m
    assume h: "ok r \<and> int m < ?N \<and> outcomes ext = pre @ Responded r # replicate m AbortError"
    then have "consecutiveTimeouts w' = m" using counter by simp
    then show "out \<noteq> ProcessExited \<and> consecutiveTimeouts w' = m" using exit h by simp
  qed
  have dead: "(\<forall>s nm a. fetch ix s nm a = AbortError) \<longrightarrow>
            outcomes ext = replicate (length (outcomes ext)) AbortError \<and>
            int (?c + length (outcomes ext)) \<le> ?N \<and>
            (out = ProcessExited) = (int (?c + length (outcomes ext)) = ?N)"
  proof
    assume "\<forall>s nm a. fetch ix s nm a = AbortError"
    then have "\<forall>x\<in>set (outcomes ext). x = AbortError" using ext(4) by auto
    then have all: "outcomes ext = replicate (length (outcomes ext)) AbortError"
      by (rule all_timeouts)
    have "consecutive ?c (replicate (length (outcomes ext)) AbortError)
            = ?c + length (outcomes ext)" by simp
    then have "consecutiveTimeouts w' = ?c + length (outcomes ext)"
      using counter all by simp
    then show "outcomes ext = replicate (length (outcomes ext)) AbortError \<and>
            int (?c + length (outcomes ext)) \<le> ?N \<and>
            (out = ProcessExited) = (int (?c + length (outcomes ext)) = ?N)"
      using all exit ceiling by (cases "out = ProcessExited") simp_all
  qed
  have attempt: "(snd (afterAttempt ceiling name src m k c outcome) = ProcessExit)
            = (outcome = AbortError \<and> ceiling \<le> int c + 1)"
    by (cases outcome) auto
  have reset: "afterAttempt ceiling name src m k c (Responded resp)
            = (0, Return (okResult name src resp))"
    using accepted by simp
  from timeouts_then_accepted [OF first accepted _ few(2), of 0 ceiling name1 src] few(1)
  obtain tr1 where "attempts tr1 = n + 1"
    "indexMhtmlFile ceiling 0 name1 src maxRetries script1 = (Some (okResult name1 src resp), 0, tr1)"
    by auto
  moreover from timeouts_to_the_end [OF second, of 0 ceiling name2 src] few(1)
  obtain tr2 where "attempts tr2 = n"
    "indexMhtmlFile ceiling 0 name2 src (int n) script2
       = (Some (retriesExhausted name2 src (int n)), n, tr2)"
    by auto
  ultimately have calls: "\<exists>tr1 tr2. attempts tr1 = n + 1 \<and> attempts tr2 = n \<and>
            indexMhtmlFile ceiling 0 name1 src maxRetries script1
              = (Some (okResult name1 src resp), 0, tr1) \<and>
            indexMhtmlFile ceiling 0 name2 src (int n) script2
              = (Some (retriesExhausted name2 src (int n)), n, tr2)"
    by blast
  show ?thesis
    unfolding added
    using ext(1,2,3) counter before exit final recovered dead attempt reset calls
    by blast
qed

lemma unresponsive_run:
  "indexAllMhtmlFiles unresponsiveIndexer AllSources 2 False exampleStart =
     Some (ProcessExited, unresponsiveEnd)"
  by code_simp

lemma recovering_run:
  "indexAllMhtmlFiles recoveringIndexer AllSources 1 False patientStart =
     Some (Returned recoveringReport, recoveringEnd)"
  by code_simp

lemma dead_run:
  "indexAllMhtmlFiles deadIndexer AllSources 1 False patientStart =
     Some (ProcessExited, deadEnd)"
  by code_simp

lemma recovering_outcomes:
  "outcomes (added patientStart recoveringEnd) =
     replicate 9 AbortError @ Responded accepted # replicate 9 AbortError"
  by code_simp

lemma slowStart_twice: "\<forall>j. 1 \<le> j \<and> j \<le> int 2 \<longrightarrow> slowStart j = AbortError"
  by (simp add: slowStart_def)

lemma dead_added: "\<exists>pre. added patientStart deadEnd = pre @ [Ended 0 1 AbortError]"
  by (simp add: added_def patientStart_def deadEnd_def)

theorem circuit_breaker_witness:
  "indexAllMhtmlFiles deadIndexer AllSources 1 False patientStart = Some (ProcessExited, deadEnd)
   \<and> int (consecutiveTimeouts patientStart) < MAX_CONSECUTIVE_TIMEOUTS deadIndexer
   \<and> MAX_CONSECUTIVE_TIMEOUTS deadIndexer = 10 \<and> MAX_RETRIES deadIndexer = 3
   \<and> outcomes (added patientStart deadEnd) = replicate 10 AbortError
   \<and> breaker 10 0 (replicate 10 AbortError) = (consecutiveTimeouts deadEnd, True, [])
   \<and> consecutiveTimeouts deadEnd = 10
   \<and> (\<exists>pre. added patientStart deadEnd = pre @ [Ended 0 1 AbortError])
   \<and> indexAllMhtmlFiles deadIndexer AllSources 1 False
        (patientStart\<lparr>schedule := schedule patientStart @ [0, 0, 0]\<rparr>) =
        Some (ProcessExited, deadEnd)
   \<and> indexAllMhtmlFiles recoveringIndexer AllSources 1 False patientStart =
        Some (Returned recoveringReport, recoveringEnd)
   \<and> MAX_CONSECUTIVE_TIMEOUTS recoveringIndexer = 10 \<and> MAX_RETRIES recoveringIndexer = 3
   \<and> outcomes (added patientStart recoveringEnd) =
        replicate 9 AbortError @ Responded accepted # replicate 9 AbortError
   \<and> consecutiveTimeouts recoveringEnd = 9
   \<and> combined recoveringReport = \<lparr>total = 7, success_count = 1, failed = 6\<rparr>
   \<and> indexAllMhtmlFiles unresponsiveIndexer AllSources 2 False exampleStart =
        Some (ProcessExited, unresponsiveEnd)
   \<and> int (consecutiveTimeouts exampleStart) < MAX_CONSECUTIVE_TIMEOUTS unresponsiveIndexer
   \<and> int (consecutiveTimeouts unresponsiveEnd) = MAX_CONSECUTIVE_TIMEOUTS unresponsiveIndexer
   \<and> ok accepted \<and> int 2 < 3
   \<and> (\<exists>tr1 tr2. attempts tr1 = 2 + 1 \<and> attempts tr2 = 2 \<and>
        indexMhtmlFile 3 0 ''a.mhtml'' Qast 3 slowStart =
          (Some (okResult ''a.mhtml'' Qast accepted), 0, tr1) \<and>
        indexMhtmlFile 3 0 ''b.mhtml'' Qast (int 2) slowStart =
          (Some (retriesExhausted ''b.mhtml'' Qast (int 2)), 2, tr2))"
proof -
  have startD: "int (consecutiveTimeouts patientStart) < MAX_CONSECUTIVE_TIMEOUTS deadIndexer"
    by (simp add: patientStart_def deadIndexer_def recoveringIndexer_def)
  have startR: "int (consecutiveTimeouts patientStart) < MAX_CONSECUTIVE_TIMEOUTS recoveringIndexer"
    by (simp add: patientStart_def recoveringIndexer_def)
  have limits: "MAX_CONSECUTIVE_TIMEOUTS deadIndexer = 10" "MAX_RETRIES deadIndexer = 3"
    "MAX_CONSECUTIVE_TIMEOUTS recoveringIndexer = 10" "MAX_RETRIES recoveringIndexer = 3"
    by (simp_all add: deadIndexer_def recoveringIndexer_def)
  have c0: "consecutiveTimeouts patientStart = 0" by (simp add: patientStart_def)
  have acc: "ok accepted" by (simp add: accepted_def)
  have few: "int 2 < (3::int)" by simp
  have third: "slowStart (int 2 + 1) = Responded accepted" by (simp add: slowStart_def)
  note dead = circuit_breaker [where ?script1.0 = slowStart and ?script2.0 = slowStart
      and ?name1.0 = "''a.mhtml''" and ?name2.0 = "''b.mhtml''" and src = Qast,
      OF dead_run startD acc few few slowStart_twice third slowStart_twice]
  note recovering = circuit_breaker [where ?script1.0 = slowStart and ?script2.0 = slowStart
      and ?name1.0 = "''a.mhtml''" and ?name2.0 = "''b.mhtml''" and src = Qast,
      OF recovering_run startR acc few few slowStart_twice third slowStart_twice]
  have startU: "int (consecutiveTimeouts exampleStart) < MAX_CONSECUTIVE_TIMEOUTS unresponsiveIndexer"
    by (simp add: exampleStart_def unresponsiveIndexer_def)
  note unresponsive = circuit_breaker [where ?script1.0 = slowStart and ?script2.0 = slowStart
      and ?name1.0 = "''a.mhtml''" and ?name2.0 = "''b.mhtml''" and src = Qast,
      OF unresponsive_run startU acc few few slowStart_twice third slowStart_twice]
  have u1: "int (consecutiveTimeouts unresponsiveEnd) = MAX_CONSECUTIVE_TIMEOUTS unresponsiveIndexer"
    using unresponsive [THEN conjunct2, THEN conjunct2, THEN conjunct2, THEN conjunct2,
      THEN conjunct1] by simp
  have never: "\<forall>s nm a. fetch deadIndexer s nm a = AbortError"
    by (simp add: deadIndexer_def)
  note timeouts = dead [THEN conjunct2, THEN conjunct2, THEN conjunct2, THEN conjunct2,
      THEN conjunct2, THEN conjunct2, THEN conjunct2, THEN conjunct1, THEN mp, OF never]
  have len: "length (outcomes (added patientStart deadEnd)) = 10"
    using timeouts [THEN conjunct2, THEN conjunct2] limits(1) c0 by simp
  have d1: "outcomes (added patientStart deadEnd) = replicate 10 AbortError"
    using timeouts [THEN conjunct1] len by simp
  have d2: "breaker 10 0 (replicate 10 AbortError) = (consecutiveTimeouts deadEnd, True, [])"
    using dead [THEN conjunct2, THEN conjunct1] d1 limits(1) c0 by simp
  have d3: "consecutiveTimeouts deadEnd = 10"
    using dead [THEN conjunct2, THEN conjunct2, THEN conjunct2, THEN conjunct2, THEN conjunct1]
      limits(1) by simp
  have d4: "indexAllMhtmlFiles deadIndexer AllSources 1 False
        (patientStart\<lparr>schedule := schedule patientStart @ [0, 0, 0]\<rparr>) =
        Some (ProcessExited, deadEnd)"
    using dead [THEN conjunct2, THEN conjunct2, THEN conjunct2, THEN conjunct2, THEN conjunct2,
      THEN conjunct1] by simp
  have "ok accepted \<and> int 9 < MAX_CONSECUTIVE_TIMEOUTS recoveringIndexer \<and>
        outcomes (added patientStart recoveringEnd) =
          replicate 9 AbortError @ Responded accepted # replicate 9 AbortError"
    using acc limits(3) recovering_outcomes by simp
  from recovering [THEN conjunct2, THEN conjunct2, THEN conjunct2, THEN conjunct2,
      THEN conjunct2, THEN conjunct2, THEN conjunct1, THEN spec, THEN spec, THEN spec,
      THEN mp, OF this]
  have r1: "consecutiveTimeouts recoveringEnd = 9" by simp
  have r2: "combined recoveringReport = \<lparr>total = 7, success_count = 1, failed = 6\<rparr>"
    by (simp add: recoveringReport_def)
  have calls: "\<exists>tr1 tr2. attempts tr1 = 2 + 1 \<and> attempts tr2 = 2 \<and>
        indexMhtmlFile 3 0 ''a.mhtml'' Qast 3 slowStart =
          (Some (okResult ''a.mhtml'' Qast accepted), 0, tr1) \<and>
        indexMhtmlFile 3 0 ''b.mhtml'' Qast (int 2) slowStart =
          (Some (retriesExhausted ''b.mhtml'' Qast (int 2)), 2, tr2)"
    using dead [THEN conjunct2, THEN conjunct2, THEN conjunct2, THEN conjunct2, THEN conjunct2,
      THEN conjunct2, THEN conjunct2, THEN conjunct2, THEN conjunct2, THEN conjunct2] .
  show ?thesis
    using dead_run startD limits d1 d2 d3 dead_added d4 recovering_run recovering_outcomes
      r1 r2 unresponsive_run startU u1 acc few calls
    by blast
qed

section \<open>Properties of the batch orchestrator and the run coordinator\<close>

lemma example_qast_run:
  "indexSourceMhtmlFiles exampleIndexer Qast 2 False exampleStart =
     Some (Returned exampleQastReport,
           \<lparr>consecutiveTimeouts = 0, trace = exampleQastTrace, schedule = [0, 0]\<rparr>)"
  by code_simp

lemma example_run:
  "indexAllMhtmlFiles exampleIndexer AllSources 2 False exampleStart =
     Some (Returned exampleRunReport, exampleEnd)"
  by code_simp

lemma example_listing:
  "listBlobsFlat exampleIndexer (containerName Qast) (blobPrefix Qast) =
     Inr [''qast-mhtml/data/q1.mhtml'', ''qast-mhtml/data/q2.mhtml'',
          ''qast-mhtml/data/index.txt'', ''qast-mhtml/data/q3.mhtml'',
          ''qast-mhtml/data/q4.mhtml'', ''qast-mhtml/data/q5.mhtml'']"
  by (simp add: exampleIndexer_def containerName_def)

lemma makeReport_invariant:
  "total (makeReport rs) = success_count (makeReport rs) + failed (makeReport rs)"
  "total (makeReport rs) = length (results (makeReport rs))"
  by (simp_all add: makeReport_def sum_length_filter_compl)

text \<open>
  C5. Every report that \<open>indexSourceMhtmlFiles\<close> returns from a run that is not a dry run
  has \<open>total = success + failed\<close> and \<open>total\<close> equal to the length of its list of results.
\<close>

theorem partition_report_invariant:
  assumes "indexSourceMhtmlFiles ix src concurrency False w = Some (Returned rep, w')"
  shows "total rep = success_count rep + failed rep \<and> total rep = length (results rep)"
  using assms makeReport_invariant
  by (auto simp: indexSourceMhtmlFiles_def Let_def
      split: option.splits sum.splits if_splits loopOutcome.splits)

theorem partition_report_invariant_witness:
  "indexSourceMhtmlFiles exampleIndexer Qast 2 False exampleStart =
     Some (Returned exampleQastReport,
           \<lparr>consecutiveTimeouts = 0, trace = exampleQastTrace, schedule = [0, 0]\<rparr>)
   \<and> total exampleQastReport = 5 \<and> success_count exampleQastReport = 4
   \<and> failed exampleQastReport = 1 \<and> length (results exampleQastReport) = 5"
  using partition_report_invariant [OF example_qast_run] example_qast_run
  by (simp add: exampleQastReport_def)

text \<open>
  C6. A dry run whose listing holds at least one name that ends in \<open>.mhtml\<close> returns a
  report whose \<open>total\<close> is the number of such names, with no success, no failure and no
  result, and leaves the world as it was: nothing is added to the trace (no attempt of a
  submission among it), the counter and the schedule are untouched.
\<close>

theorem dry_run_submits_nothing:
  assumes "listBlobsFlat ix (containerName src) (blobPrefix src) = Inr listed"
      and "filter (\<lambda>name. endsWith name ''.mhtml'') listed \<noteq> []"
  shows "indexSourceMhtmlFiles ix src concurrency True w =
           Some (Returned \<lparr>total = length (filter (\<lambda>name. endsWith name ''.mhtml'') listed),
                           success_count = 0, failed = 0, results = []\<rparr>, w)"
  using assms by (simp add: indexSourceMhtmlFiles_def)

theorem dry_run_submits_nothing_witness:
  "listBlobsFlat exampleIndexer (containerName Qast) (blobPrefix Qast) =
     Inr [''qast-mhtml/data/q1.mhtml'', ''qast-mhtml/data/q2.mhtml'',
          ''qast-mhtml/data/index.txt'', ''qast-mhtml/data/q3.mhtml'',
          ''qast-mhtml/data/q4.mhtml'', ''qast-mhtml/data/q5.mhtml'']
   \<and> indexSourceMhtmlFiles exampleIndexer Qast 2 True exampleStart =
       Some (Returned \<lparr>total = 5, success_count = 0, failed = 0, results = []\<rparr>, exampleStart)"
proof -
  have h: "filter (\<lambda>name. endsWith name ''.mhtml'')
             [''qast-mhtml/data/q1.mhtml'', ''qast-mhtml/data/q2.mhtml'',
              ''qast-mhtml/data/index.txt'', ''qast-mhtml/data/q3.mhtml'',
              ''qast-mhtml/data/q4.mhtml'', ''qast-mhtml/data/q5.mhtml''] \<noteq> []"
    by (simp add: endsWith_def)
  show ?thesis
    using dry_run_submits_nothing [OF example_listing h, of 2 exampleStart] example_listing
    by (simp add: endsWith_def)
qed

lemma processSource_Returned:
  assumes "processSource ix src concurrency dryRun run w = Some (Returned run', w')"
  shows "\<exists>r. indexSourceMhtmlFiles ix src concurrency dryRun w = Some (Returned r, w')
            \<and> run' = store src run r"
  using assms
  by (auto simp: processSource_def split: option.splits outcome.splits prod.splits)

text \<open>
  C8. In every run report that \<open>indexAllMhtmlFiles\<close> returns, each of the combined
  \<open>total\<close>, \<open>success\<close> and \<open>failed\<close> is the sum of that field over the partition reports the
  run report holds; it holds the report of \<open>qast\<close> exactly when the selector is \<open>qast\<close> or
  \<open>all\<close>, that of \<open>stock\<close> exactly when it is \<open>stock\<close> or \<open>all\<close>, and each is the report that
  \<open>indexSourceMhtmlFiles\<close> returned for that partition in this run.
\<close>

theorem combined_is_sum_of_included:
  assumes "indexAllMhtmlFiles ix targetSource concurrency dryRun w = Some (Returned run, w')"
  shows "total (combined run) = sum_list (map total (included run))
       \<and> success_count (combined run) = sum_list (map success_count (included run))
       \<and> failed (combined run) = sum_list (map failed (included run))
       \<and> (qast run \<noteq> None) = (targetSource = OnlyQast \<or> targetSource = AllSources)
       \<and> (stock run \<noteq> None) = (targetSource = OnlyStock \<or> targetSource = AllSources)
       \<and> (\<forall>r. qast run = Some r \<longrightarrow>
             (\<exists>w1. indexSourceMhtmlFiles ix Qast concurrency dryRun w = Some (Returned r, w1)))
       \<and> (\<forall>r. stock run = Some r \<longrightarrow>
             (\<exists>w1. indexSourceMhtmlFiles ix Stock concurrency dryRun w1 = Some (Returned r, w')))"
proof (cases targetSource)
  case OnlyQast
  let ?run0 = "\<lparr>qast = None, stock = None,
                 combined = \<lparr>total = 0, success_count = 0, failed = 0\<rparr>\<rparr>"
  have "processSource ix Qast concurrency dryRun ?run0 w = Some (Returned run, w')"
    using assms OnlyQast
    by (auto simp: indexAllMhtmlFiles_def split: option.splits outcome.splits prod.splits)
  from processSource_Returned [OF this] obtain r where
    "indexSourceMhtmlFiles ix Qast concurrency dryRun w = Some (Returned r, w')"
    "run = store Qast ?run0 r" by blast
  then show ?thesis using OnlyQast by (auto simp: included_def addCounts_def)
next
  case OnlyStock
  let ?run0 = "\<lparr>qast = None, stock = None,
                 combined = \<lparr>total = 0, success_count = 0, failed = 0\<rparr>\<rparr>"
  have "processSource ix Stock concurrency dryRun ?run0 w = Some (Returned run, w')"
    using assms OnlyStock
    by (auto simp: indexAllMhtmlFiles_def split: option.splits outcome.splits prod.splits)
  from processSource_Returned [OF this] obtain r where
    "indexSourceMhtmlFiles ix Stock concurrency dryRun w = Some (Returned r, w')"
    "run = store Stock ?run0 r" by blast
  then show ?thesis using OnlyStock by (auto simp: included_def addCounts_def)
next
  case AllSources
  let ?run0 = "\<lparr>qast = None, stock = None,
                 combined = \<lparr>total = 0, success_count = 0, failed = 0\<rparr>\<rparr>"
  from assms AllSources obtain run1 w1 where
    p1: "processSource ix Qast concurrency dryRun ?run0 w = Some (Returned run1, w1)" and
    p2: "processSource ix Stock concurrency dryRun run1 w1 = Some (Returned run, w')"
    by (auto simp: indexAllMhtmlFiles_def Let_def
        split: option.splits outcome.splits prod.splits)
  from processSource_Returned [OF p1] obtain r1 where
    r1: "indexSourceMhtmlFiles ix Qast concurrency dryRun w = Some (Returned r1, w1)"
        "run1 = store Qast ?run0 r1" by blast
  from processSource_Returned [OF p2] obtain r2 where
    r2: "indexSourceMhtmlFiles ix Stock concurrency dryRun w1 = Some (Returned r2, w')"
        "run = store Stock run1 r2" by blast
  show ?thesis using AllSources r1 r2 by (auto simp: included_def addCounts_def)
qed

theorem combined_is_sum_of_included_witness:
  "indexAllMhtmlFiles exampleIndexer AllSources 2 False exampleStart =
     Some (Returned exampleRunReport, exampleEnd)
   \<and> included exampleRunReport = [exampleQastReport, exampleStockReport]
   \<and> total (combined exampleRunReport) = 5 + 1
   \<and> success_count (combined exampleRunReport) = 4 + 1
   \<and> failed (combined exampleRunReport) = 1 + 0"
  using combined_is_sum_of_included [OF example_run] example_run
  by (simp add: included_def exampleRunReport_def exampleQastReport_def exampleStockReport_def)

section \<open>Batches\<close>

text \<open>The groups of the specification: together they are the list, each has between one
  and \<open>c\<close> members, and each but the last has \<open>c\<close>.\<close>

lemma concat_consecutiveGroups: "0 < c \<Longrightarrow> concat (consecutiveGroups c xs) = xs"
  by (induction c xs rule: consecutiveGroups.induct) (subst consecutiveGroups.simps, simp)

lemma length_consecutiveGroups:
  "g \<in> set (consecutiveGroups c xs) \<Longrightarrow> 1 \<le> length g \<and> length g \<le> c"
proof (induction c xs rule: consecutiveGroups.induct)
  case (1 c xs)
  show ?case
  proof (cases "c = 0 \<or> xs = []")
    case True
    then show ?thesis using "1.prems" by (simp add: consecutiveGroups.simps)
  next
    case False
    then have "g = take c xs \<or> g \<in> set (consecutiveGroups c (drop c xs))"
      using "1.prems" by (subst (asm) consecutiveGroups.simps) auto
    then show ?thesis
    proof
      assume "g = take c xs"
      then show ?thesis using False by (cases xs) auto
    next
      assume "g \<in> set (consecutiveGroups c (drop c xs))"
      then show ?thesis using "1.IH" False by blast
    qed
  qed
qed

lemma butlast_consecutiveGroups:
  "g \<in> set (butlast (consecutiveGroups c xs)) \<Longrightarrow> length g = c"
proof (induction c xs rule: consecutiveGroups.induct)
  case (1 c xs)
  show ?case
  proof (cases "c = 0 \<or> xs = []")
    case True
    then show ?thesis using "1.prems" by (simp add: consecutiveGroups.simps)
  next
    case False
    show ?thesis
    proof (cases "consecutiveGroups c (drop c xs) = []")
      case True
      then show ?thesis using "1.prems" False by (subst (asm) consecutiveGroups.simps) simp
    next
      case nonempty: False
      then have "drop c xs \<noteq> []" by (auto simp: consecutiveGroups.simps)
      then have full: "length (take c xs) = c" by simp
      have "g = take c xs \<or> g \<in> set (butlast (consecutiveGroups c (drop c xs)))"
        using "1.prems" False nonempty by (subst (asm) consecutiveGroups.simps) auto
      then show ?thesis using full "1.IH" False by blast
    qed
  qed
qed

lemma five_in_twos:
  assumes "length xs = 5"
  shows "map length (consecutiveGroups 2 xs) = [2, 2, 1]"
proof -
  obtain a b c d e where "xs = [a, b, c, d, e]"
    using assms by (auto simp: length_Suc_conv eval_nat_numeral)
  then show ?thesis by (simp add: consecutiveGroups.simps)
qed

lemma slice_take_drop:
  assumes "0 \<le> i" and "i < int (length xs)" and "1 \<le> c"
  shows "slice xs i (i + c) = take (nat c) (drop (nat i) xs)"
proof -
  have "nat (min (i + c) (int (length xs)) - i) = min (nat c) (length xs - nat i)"
    using assms by (auto simp: min_def)
  then show ?thesis using assms by (simp add: slice_def Let_def min_def)
qed

text \<open>What a batch adds to the trace is about its own members, and when the batch has
  settled every member that was not settled has settled in it.\<close>

lemma started_members [simp]:
  "length (started batch) = length batch"
  "j < length batch \<Longrightarrow> \<not> isDone (started batch ! j)"
  by (simp_all add: started_def)

lemma announce_cases:
  "e \<in> set (announce a t) \<Longrightarrow> (\<exists>k. e = Attempt a k) \<or> e = Settled a"
  by (cases t) auto

lemma observe_cases:
  "e \<in> set (observe ix src name a t) \<Longrightarrow> \<exists>k outcome. e = Ended a k outcome"
  by (cases t) auto


lemma awaitAll_trace:
  "\<exists>ext. batchLog (awaitAll ix src container i batch ts c log sched) = log @ ext
     \<and> (\<forall>e\<in>set ext. \<exists>j<length ts. (\<exists>k. e = Attempt (i + int j) k)
            \<or> (\<exists>k outcome. e = Ended (i + int j) k outcome) \<or> e = Settled (i + int j))
     \<and> ((\<exists>rs c' log' sched'. awaitAll ix src container i batch ts c log sched
              = AllSettled rs c' log' sched') \<longrightarrow>
          (\<forall>j<length ts. \<not> isDone (ts ! j) \<longrightarrow> Settled (i + int j) \<in> set ext))"
proof (induction sched arbitrary: ts c log)
  case Nil
  show ?case by (rule exI [of _ "[]"]) (auto simp: list_all_length)
next
  case (Cons j sched)
  show ?case
  proof (cases "list_all isDone ts")
    case True
    then show ?thesis by (intro exI [of _ "[]"]) (auto simp: list_all_length)
  next
    case notall: False
    show ?thesis
    proof (cases "j < length ts \<and> j < length batch \<and> \<not> isDone (ts ! j)")
      case False
      then have "awaitAll ix src container i batch ts c log (j # sched)
                   = awaitAll ix src container i batch ts c log sched"
        using notall by auto
      then show ?thesis using Cons.IH [of ts c log] by simp
    next
      case True
      let ?seen = "observe ix src (batch ! j) (i + int j) (ts ! j)"
      obtain c1 t1 where st: "taskStep ix src container (batch ! j) c (ts ! j) = (c1, t1)"
        by (cases "taskStep ix src container (batch ! j) c (ts ! j)")
      show ?thesis
      proof (cases t1)
        case None
        then have "awaitAll ix src container i batch ts c log (j # sched) = Exited c1 (log @ ?seen)"
          using st True notall by simp
        moreover have "\<forall>e\<in>set ?seen. \<exists>j'<length ts. (\<exists>k. e = Attempt (i + int j') k)
            \<or> (\<exists>k outcome. e = Ended (i + int j') k outcome) \<or> e = Settled (i + int j')"
          using observe_cases True by blast
        ultimately show ?thesis by (intro exI [of _ ?seen]) simp
      next
        case (Some t)
        let ?next = "awaitAll ix src container i batch (ts[j := t]) c1
                       (log @ ?seen @ announce (i + int j) t) sched"
        have eq: "awaitAll ix src container i batch ts c log (j # sched) = ?next"
          using st True notall Some by simp
        from Cons.IH [of "ts[j := t]" c1 "log @ ?seen @ announce (i + int j) t"]
        obtain ext where ext:
          "batchLog ?next = (log @ ?seen @ announce (i + int j) t) @ ext"
          "\<forall>e\<in>set ext. \<exists>j'<length (ts[j := t]). (\<exists>k. e = Attempt (i + int j') k)
              \<or> (\<exists>k outcome. e = Ended (i + int j') k outcome) \<or> e = Settled (i + int j')"
          "(\<exists>rs c' log' sched'. ?next = AllSettled rs c' log' sched') \<longrightarrow>
             (\<forall>j'<length (ts[j := t]). \<not> isDone (ts[j := t] ! j') \<longrightarrow>
                Settled (i + int j') \<in> set ext)"
          by blast
        let ?ext = "?seen @ announce (i + int j) t @ ext"
        have 1: "batchLog (awaitAll ix src container i batch ts c log (j # sched)) = log @ ?ext"
          using ext(1) eq by simp
        have 2: "\<forall>e\<in>set ?ext. \<exists>j'<length ts. (\<exists>k. e = Attempt (i + int j') k)
              \<or> (\<exists>k outcome. e = Ended (i + int j') k outcome) \<or> e = Settled (i + int j')"
        proof
          fix e assume "e \<in> set ?ext"
          then consider "e \<in> set ?seen" | "e \<in> set (announce (i + int j) t)" | "e \<in> set ext"
            by auto
          then show "\<exists>j'<length ts. (\<exists>k. e = Attempt (i + int j') k)
              \<or> (\<exists>k outcome. e = Ended (i + int j') k outcome) \<or> e = Settled (i + int j')"
          proof cases
            case 1
            from observe_cases [OF this] True show ?thesis by blast
          next
            case 2
            from announce_cases [OF this] True show ?thesis by blast
          next
            case 3
            then show ?thesis using ext(2) by simp
          qed
        qed
        have 3: "(\<exists>rs c' log' sched'. awaitAll ix src container i batch ts c log (j # sched)
                     = AllSettled rs c' log' sched') \<longrightarrow>
                 (\<forall>j'<length ts. \<not> isDone (ts ! j') \<longrightarrow> Settled (i + int j') \<in> set ?ext)"
        proof (intro allI impI)
          fix j'
          assume fin: "\<exists>rs c' log' sched'. awaitAll ix src container i batch ts c log (j # sched)
                     = AllSettled rs c' log' sched'"
            and j': "j' < length ts" "\<not> isDone (ts ! j')"
          from fin eq ext(3)
          have all: "\<forall>j'<length (ts[j := t]). \<not> isDone (ts[j := t] ! j') \<longrightarrow>
                Settled (i + int j') \<in> set ext" by simp
          show "Settled (i + int j') \<in> set ?ext"
          proof (cases "j' = j")
            case False
            then show ?thesis using all j' by simp
          next
            case same: True
            show ?thesis
            proof (cases "isDone t")
              case True
              then show ?thesis using same by (cases t) auto
            next
              case False
              then show ?thesis using all j' same by simp
            qed
          qed
        qed
        from 1 2 3 show ?thesis by blast
      qed
    qed
  qed
qed


lemma same_group:
  fixes c i a :: int
  assumes "1 \<le> c" "c dvd i" "i \<le> a" "a < i + c"
  shows "a div c = i div c"
proof -
  from assms(2) obtain q where q: "i = c * q" by (auto simp: dvd_def)
  define r where "r = a - i"
  have r: "0 \<le> r" "r < c" "a = c * q + r" using assms q by (auto simp: r_def)
  have "a div c = q" using r assms(1) by (simp add: div_pos_pos_trivial)
  moreover have "i div c = q" using q assms(1) by simp
  ultimately show ?thesis by simp
qed

lemma later_group:
  fixes c i a :: int
  assumes "1 \<le> c" "c dvd i" "i + c \<le> a"
  shows "i div c < a div c"
proof -
  from assms(2) obtain q where q: "i = c * q" by (auto simp: dvd_def)
  have "(i + c) div c \<le> a div c" using assms(1,3) by (intro zdiv_mono1) simp_all
  moreover have "(i + c) div c = q + 1" using q assms(1) by simp
  moreover have "i div c = q" using q assms(1) by simp
  ultimately show ?thesis by simp
qed

lemma sorted_wrt_all:
  "(\<forall>x\<in>set xs. \<forall>y\<in>set xs. P x y) \<Longrightarrow> sorted_wrt P xs"
  by (induction xs) auto

lemma no_BatchStart:
  "(\<forall>e\<in>set xs. \<forall>b. e \<noteq> BatchStart b) \<Longrightarrow> [b. BatchStart b \<leftarrow> xs] = []"
  by (induction xs) (auto split: event.splits)

text \<open>The trace that the loop adds from the offset \<open>i\<close>, a multiple of \<open>concurrency\<close>,
  however it ends: its batches are the first of the groups of what is left of the list,
  no event of a later group stands before one of an earlier group, and where a member has
  begun, every member of the groups before its own has settled. When the loop has come to
  its end the batches are all the groups, and every blob from \<open>i\<close> on has begun and settled.\<close>

lemma batchLoop_trace:
  "batchLoop ix src container concurrency allBlobs i rs c log sched = Some y \<Longrightarrow>
   1 \<le> concurrency \<Longrightarrow> 0 \<le> i \<Longrightarrow> concurrency dvd i \<Longrightarrow>
   \<exists>ext. loopLog y = log @ ext
     \<and> prefix [b. BatchStart b \<leftarrow> ext]
          (consecutiveGroups (nat concurrency) (drop (nat i) allBlobs))
     \<and> (\<forall>e\<in>set ext. \<forall>a. itemOf e = Some a \<longrightarrow> i \<le> a \<and> a < int (length allBlobs))
     \<and> sorted_wrt (notLater concurrency) ext
     \<and> (\<forall>b. Began b \<in> set ext \<longrightarrow>
           (\<forall>a. i \<le> a \<and> a div concurrency < b div concurrency \<longrightarrow> Settled a \<in> set ext))
     \<and> ((\<exists>rs' c' log' sched'. y = LoopDone rs' c' log' sched') \<longrightarrow>
          [b. BatchStart b \<leftarrow> ext] = consecutiveGroups (nat concurrency) (drop (nat i) allBlobs)
          \<and> (\<forall>a. i \<le> a \<and> a < int (length allBlobs) \<longrightarrow>
                Began a \<in> set ext \<and> Settled a \<in> set ext))"
proof (induct rule: batchLoop.raw_induct [rotated 1, consumes 1, case_names step])
  case (step batchLoop' ix src container concurrency allBlobs i rs c log sched y)
  note conc = \<open>1 \<le> concurrency\<close> and i0 = \<open>0 \<le> i\<close> and dv = \<open>concurrency dvd i\<close>
  show ?case
  proof (cases "i < int (length allBlobs)")
    case False
    then have "y = LoopDone rs c log sched" using step(2) by simp
    moreover have "drop (nat i) allBlobs = []" using False by simp
    ultimately show ?thesis using False
      by (intro exI [of _ "[]"]) (simp add: consecutiveGroups.simps)
  next
    case True
    let ?B = "slice allBlobs i (i + concurrency)"
    let ?began = "map (\<lambda>j. Began (i + int j)) [0..<length ?B]"
    let ?log = "log @ BatchStart ?B # ?began"
    let ?out = "awaitAll ix src container i ?B (started ?B) c ?log sched"
    let ?rest = "consecutiveGroups (nat concurrency) (drop (nat (i + concurrency)) allBlobs)"
    have B: "?B = take (nat concurrency) (drop (nat i) allBlobs)"
      by (rule slice_take_drop [OF i0 True conc])
    have "length ?B = min (nat concurrency) (length allBlobs - nat i)"
      by (simp add: B)
    moreover have "int (length allBlobs - nat i) = int (length allBlobs) - i"
      using i0 True by linarith
    ultimately have lenB: "int (length ?B) = min concurrency (int (length allBlobs) - i)"
      using conc unfolding min_def
      by (cases "nat concurrency \<le> length allBlobs - nat i") (simp; linarith)+
    have "drop (nat (i + concurrency)) allBlobs = drop (nat concurrency) (drop (nat i) allBlobs)"
      using conc i0 by (simp add: nat_add_distrib add.commute)
    then have groups: "consecutiveGroups (nat concurrency) (drop (nat i) allBlobs) = ?B # ?rest"
      using True conc i0 B by (subst consecutiveGroups.simps) simp
    from awaitAll_trace [of ix src container i ?B "started ?B" c ?log sched]
    obtain ext1 where ext1:
      "batchLog ?out = ?log @ ext1"
      "\<forall>e\<in>set ext1. \<exists>j<length ?B. (\<exists>k. e = Attempt (i + int j) k)
          \<or> (\<exists>k outcome. e = Ended (i + int j) k outcome) \<or> e = Settled (i + int j)"
      "(\<exists>rs c' log' sched'. ?out = AllSettled rs c' log' sched') \<longrightarrow>
         (\<forall>j<length ?B. Settled (i + int j) \<in> set ext1)"
      by auto
    let ?seg = "BatchStart ?B # ?began @ ext1"
    have items: "\<forall>e\<in>set ?seg. \<forall>a. itemOf e = Some a \<longrightarrow>
        i \<le> a \<and> a < i + concurrency \<and> a < int (length allBlobs)"
    proof (intro ballI allI impI)
      fix e a assume e: "e \<in> set ?seg" and a: "itemOf e = Some a"
      then consider "e \<in> set ?began" | "e \<in> set ext1" by auto
      then obtain j where "j < length ?B" "a = i + int j"
      proof cases
        case 1
        then show ?thesis using a that by auto
      next
        case 2
        then show ?thesis using ext1(2) a that by fastforce
      qed
      then have "int j < min concurrency (int (length allBlobs) - i)" "a = i + int j"
        using lenB by linarith+
      then show "i \<le> a \<and> a < i + concurrency \<and> a < int (length allBlobs)" by simp
    qed
    have "[b. BatchStart b \<leftarrow> ?began @ ext1] = []"
      using ext1(2) by (intro no_BatchStart) auto
    then have segB: "[b. BatchStart b \<leftarrow> ?seg] = [?B]" by simp
    have inseg: "\<forall>x\<in>set ?seg. \<forall>y\<in>set ?seg. notLater concurrency x y"
    proof (intro ballI)
      fix x y assume xy: "x \<in> set ?seg" "y \<in> set ?seg"
      show "notLater concurrency x y"
      proof (cases "itemOf x")
        case None
        then show ?thesis by (simp add: notLater_def)
      next
        case (Some a)
        show ?thesis
        proof (cases "itemOf y")
          case None
          then show ?thesis by (simp add: notLater_def split: option.splits)
        next
          case (Some b)
          have "a div concurrency = i div concurrency"
            using items xy(1) \<open>itemOf x = Some a\<close> same_group [OF conc dv] by blast
          moreover have "b div concurrency = i div concurrency"
            using items xy(2) Some same_group [OF conc dv] by blast
          ultimately show ?thesis using Some \<open>itemOf x = Some a\<close> by (simp add: notLater_def)
        qed
      qed
    qed
    have first: "\<forall>b. Began b \<in> set ?seg \<longrightarrow>
           (\<forall>a. i \<le> a \<and> a div concurrency < b div concurrency \<longrightarrow> False)"
    proof (intro allI impI)
      fix b a assume b: "Began b \<in> set ?seg" and a: "i \<le> a \<and> a div concurrency < b div concurrency"
      have "b div concurrency = i div concurrency"
        using items b same_group [OF conc dv, of b] by fastforce
      moreover have "i div concurrency \<le> a div concurrency"
        using a conc by (intro zdiv_mono1) simp_all
      ultimately show False using a by simp
    qed
    show ?thesis
    proof (cases "\<exists>rs1 c1 log1 sched1. ?out = AllSettled rs1 c1 log1 sched1")
      case False
      then have y: "loopLog y = batchLog ?out" "\<forall>rs' c' log' sched'. y \<noteq> LoopDone rs' c' log' sched'"
        using step(2) True by (cases ?out; auto simp: Let_def)+
      have 1: "loopLog y = log @ ?seg" using y(1) ext1(1) by simp
      have 2: "prefix [b. BatchStart b \<leftarrow> ?seg]
          (consecutiveGroups (nat concurrency) (drop (nat i) allBlobs))"
        unfolding segB groups by simp
      have 3: "\<forall>e\<in>set ?seg. \<forall>a. itemOf e = Some a \<longrightarrow> i \<le> a \<and> a < int (length allBlobs)"
        using items by blast
      have 4: "sorted_wrt (notLater concurrency) ?seg" by (rule sorted_wrt_all [OF inseg])
      from 1 2 3 4 first y(2) show ?thesis by (intro exI [of _ ?seg]) blast
    next
      case True
      then obtain rs1 c1 log1 sched1 where out: "?out = AllSettled rs1 c1 log1 sched1" by blast
      have log1: "log1 = ?log @ ext1" using ext1(1) out by simp
      have settled: "\<forall>j<length ?B. Settled (i + int j) \<in> set ext1" using ext1(3) out by simp
      have rec: "batchLoop' ix src container concurrency allBlobs (i + concurrency)
                      (rs @ rs1) c1 log1 sched1 = Some y"
        using step(2) \<open>i < int (length allBlobs)\<close> out by (simp add: Let_def)
      have "0 \<le> i + concurrency" "concurrency dvd i + concurrency" using conc i0 dv by simp_all
      from step(1) [OF rec conc this] obtain ext2 where ext2:
        "loopLog y = log1 @ ext2"
        "prefix [b. BatchStart b \<leftarrow> ext2] ?rest"
        "\<forall>e\<in>set ext2. \<forall>a. itemOf e = Some a \<longrightarrow> i + concurrency \<le> a \<and> a < int (length allBlobs)"
        "sorted_wrt (notLater concurrency) ext2"
        "\<forall>b. Began b \<in> set ext2 \<longrightarrow>
           (\<forall>a. i + concurrency \<le> a \<and> a div concurrency < b div concurrency \<longrightarrow>
                Settled a \<in> set ext2)"
        "(\<exists>rs' c' log' sched'. y = LoopDone rs' c' log' sched') \<longrightarrow>
          [b. BatchStart b \<leftarrow> ext2] = ?rest
          \<and> (\<forall>a. i + concurrency \<le> a \<and> a < int (length allBlobs) \<longrightarrow>
                Began a \<in> set ext2 \<and> Settled a \<in> set ext2)"
        by blast
      have inB: "\<And>a. i \<le> a \<Longrightarrow> a < i + concurrency \<Longrightarrow> a < int (length allBlobs) \<Longrightarrow>
                   Began a \<in> set ?began \<and> Settled a \<in> set ext1"
      proof -
        fix a assume a: "i \<le> a" "a < i + concurrency" "a < int (length allBlobs)"
        define j where "j = nat (a - i)"
        have j: "j < length ?B" "a = i + int j" using a lenB by (auto simp: j_def)
        then have "Began a \<in> set ?began" by auto
        moreover have "Settled a \<in> set ext1" using settled j by simp
        ultimately show "Began a \<in> set ?began \<and> Settled a \<in> set ext1" by simp
      qed
      have 1: "loopLog y = log @ (?seg @ ext2)" using log1 ext2(1) by simp
      have app: "[b. BatchStart b \<leftarrow> ?seg @ ext2]
                   = [b. BatchStart b \<leftarrow> ?seg] @ [b. BatchStart b \<leftarrow> ext2]"
        by simp
      have 2: "prefix [b. BatchStart b \<leftarrow> ?seg @ ext2]
          (consecutiveGroups (nat concurrency) (drop (nat i) allBlobs))"
        unfolding app segB groups using ext2(2) by simp
      have 3: "\<forall>e\<in>set (?seg @ ext2). \<forall>a. itemOf e = Some a \<longrightarrow>
                 i \<le> a \<and> a < int (length allBlobs)"
      proof (intro ballI allI impI)
        fix e a assume "e \<in> set (?seg @ ext2)" "itemOf e = Some a"
        then show "i \<le> a \<and> a < int (length allBlobs)"
          using items ext2(3) conc by (cases "e \<in> set ?seg") fastforce+
      qed
      have cross: "\<forall>x\<in>set ?seg. \<forall>y\<in>set ext2. notLater concurrency x y"
      proof (intro ballI)
        fix x y assume xy: "x \<in> set ?seg" "y \<in> set ext2"
        show "notLater concurrency x y"
        proof (cases "itemOf x")
          case None
          then show ?thesis by (simp add: notLater_def)
        next
          case (Some a)
          show ?thesis
          proof (cases "itemOf y")
            case None
            then show ?thesis by (simp add: notLater_def split: option.splits)
          next
            case (Some b)
            have "a div concurrency = i div concurrency"
              using items xy(1) \<open>itemOf x = Some a\<close> same_group [OF conc dv] by blast
            moreover have "i div concurrency < b div concurrency"
              using ext2(3) xy(2) Some later_group [OF conc dv] by blast
            ultimately show ?thesis using Some \<open>itemOf x = Some a\<close> by (simp add: notLater_def)
          qed
        qed
      qed
      have 4: "sorted_wrt (notLater concurrency) (?seg @ ext2)"
        unfolding sorted_wrt_append using sorted_wrt_all [OF inseg] ext2(4) cross by blast
      have 5: "\<forall>b. Began b \<in> set (?seg @ ext2) \<longrightarrow>
           (\<forall>a. i \<le> a \<and> a div concurrency < b div concurrency \<longrightarrow>
                Settled a \<in> set (?seg @ ext2))"
      proof (intro allI impI)
        fix b a
        assume b: "Began b \<in> set (?seg @ ext2)"
          and a: "i \<le> a \<and> a div concurrency < b div concurrency"
        show "Settled a \<in> set (?seg @ ext2)"
        proof (cases "Began b \<in> set ?seg")
          case True
          then show ?thesis using first a by blast
        next
          case False
          then have b2: "Began b \<in> set ext2" using b by simp
          then have bb: "i + concurrency \<le> b" "b < int (length allBlobs)"
            using ext2(3) by fastforce+
          show ?thesis
          proof (cases "a < i + concurrency")
            case True
            then show ?thesis using inB [of a] a bb by simp
          next
            case False
            then show ?thesis using ext2(5) b2 a by simp
          qed
        qed
      qed
      have 6: "(\<exists>rs' c' log' sched'. y = LoopDone rs' c' log' sched') \<longrightarrow>
          [b. BatchStart b \<leftarrow> ?seg @ ext2]
             = consecutiveGroups (nat concurrency) (drop (nat i) allBlobs)
          \<and> (\<forall>a. i \<le> a \<and> a < int (length allBlobs) \<longrightarrow>
                Began a \<in> set (?seg @ ext2) \<and> Settled a \<in> set (?seg @ ext2))"
      proof (intro impI conjI allI)
        assume fin: "\<exists>rs' c' log' sched'. y = LoopDone rs' c' log' sched'"
        show "[b. BatchStart b \<leftarrow> ?seg @ ext2]
             = consecutiveGroups (nat concurrency) (drop (nat i) allBlobs)"
          unfolding app segB groups using ext2(6) fin by simp
        fix a assume a: "i \<le> a \<and> a < int (length allBlobs)"
        have "Began a \<in> set (?seg @ ext2) \<and> Settled a \<in> set (?seg @ ext2)"
        proof (cases "a < i + concurrency")
          case True
          then show ?thesis using inB [of a] a by simp
        next
          case False
          then show ?thesis using ext2(6) fin a by simp
        qed
        then show "Began a \<in> set (?seg @ ext2)" "Settled a \<in> set (?seg @ ext2)" by simp_all
      qed
      from 1 2 3 4 5 6 show ?thesis by blast
    qed
  qed
qed

text \<open>With a positive \<open>concurrency\<close> the loop comes to an end, and so does the call.\<close>

lemma batchLoop_returns:
  "1 \<le> concurrency \<Longrightarrow>
   \<exists>y. batchLoop ix src container concurrency allBlobs i rs c log sched = Some y"
proof (induction "nat (int (length allBlobs) - i)" arbitrary: i rs c log sched rule: less_induct)
  case less
  show ?case
  proof (cases "i < int (length allBlobs)")
    case False
    then show ?thesis by (subst batchLoop.simps) simp
  next
    case True
    let ?B = "slice allBlobs i (i + concurrency)"
    let ?out = "awaitAll ix src container i ?B (started ?B) c
                  (log @ BatchStart ?B # map (\<lambda>j. Began (i + int j)) [0..<length ?B]) sched"
    show ?thesis
    proof (cases ?out)
      case (AllSettled rs1 c1 log1 sched1)
      have "nat (int (length allBlobs) - (i + concurrency)) < nat (int (length allBlobs) - i)"
        using True less.prems by simp
      from less.hyps [OF this less.prems, of "rs @ rs1" c1 log1 sched1]
      show ?thesis using True AllSettled by (subst batchLoop.simps) (simp add: Let_def)
    next
      case (Exited c1 log1)
      then show ?thesis using True by (subst batchLoop.simps) (simp add: Let_def)
    next
      case (Waiting c1 log1)
      then show ?thesis using True by (subst batchLoop.simps) (simp add: Let_def)
    qed
  qed
qed

lemma indexSource_returns:
  assumes "1 \<le> concurrency"
  shows "\<exists>out w'. indexSourceMhtmlFiles ix src concurrency dryRun w = Some (out, w')"
proof (cases "(if \<not> dryRun then getProperties ix else None)")
  case (Some e)
  then show ?thesis by (simp add: indexSourceMhtmlFiles_def)
next
  case None
  show ?thesis
  proof (cases "listBlobsFlat ix (containerName src) (blobPrefix src)")
    case (Inl e)
    then show ?thesis using None by (simp add: indexSourceMhtmlFiles_def)
  next
    case (Inr listed)
    let ?all = "filter (\<lambda>name. endsWith name ''.mhtml'') listed"
    from batchLoop_returns [OF assms] obtain y where
      "batchLoop ix src (containerName src) concurrency ?all 0 []
          (consecutiveTimeouts w) (trace w) (schedule w) = Some y" by blast
    then show ?thesis using None Inr
      by (cases y) (auto simp: indexSourceMhtmlFiles_def Let_def)
  qed
qed

lemma indexSource_trace:
  assumes conc: "1 \<le> concurrency"
      and listing: "listBlobsFlat ix (containerName src) (blobPrefix src) = Inr listed"
      and all: "allBlobs = filter (\<lambda>name. endsWith name ''.mhtml'') listed"
      and run: "indexSourceMhtmlFiles ix src concurrency False w = Some (out, w')"
  shows "\<exists>new. trace w' = trace w @ new
     \<and> prefix [b. BatchStart b \<leftarrow> new] (consecutiveGroups (nat concurrency) allBlobs)
     \<and> sorted_wrt (notLater concurrency) new
     \<and> (\<forall>b. Began b \<in> set new \<longrightarrow>
           (\<forall>a. 0 \<le> a \<and> a div concurrency < b div concurrency \<longrightarrow> Settled a \<in> set new))
     \<and> ((\<exists>rep. out = Returned rep) \<longrightarrow>
          [b. BatchStart b \<leftarrow> new] = consecutiveGroups (nat concurrency) allBlobs
          \<and> (\<forall>a. 0 \<le> a \<and> a < int (length allBlobs) \<longrightarrow>
                Began a \<in> set new \<and> Settled a \<in> set new))"
proof (cases "getProperties ix = None \<and> allBlobs \<noteq> []")
  case False
  then have "w' = w" using run listing all
    by (auto simp: indexSourceMhtmlFiles_def Let_def split: option.splits)
  moreover have "(\<exists>rep. out = Returned rep) \<longrightarrow> allBlobs = []" using False run listing all
    by (auto simp: indexSourceMhtmlFiles_def Let_def split: option.splits)
  ultimately show ?thesis
    by (intro exI [of _ "[]"]) (auto simp: consecutiveGroups.simps)
next
  case True
  then obtain y where
    loop: "batchLoop ix src (containerName src) concurrency allBlobs 0 []
             (consecutiveTimeouts w) (trace w) (schedule w) = Some y"
    and w': "trace w' = loopLog y"
    and ret: "(\<exists>rep. out = Returned rep) = (\<exists>rs' c' log' sched'. y = LoopDone rs' c' log' sched')"
    using run listing all
    by (auto simp: indexSourceMhtmlFiles_def Let_def split: option.splits loopOutcome.splits)
  from batchLoop_trace [OF loop conc] obtain ext where
    "loopLog y = trace w @ ext"
    "prefix [b. BatchStart b \<leftarrow> ext] (consecutiveGroups (nat concurrency) (drop (nat 0) allBlobs))"
    "sorted_wrt (notLater concurrency) ext"
    "\<forall>b. Began b \<in> set ext \<longrightarrow>
           (\<forall>a. 0 \<le> a \<and> a div concurrency < b div concurrency \<longrightarrow> Settled a \<in> set ext)"
    "(\<exists>rs' c' log' sched'. y = LoopDone rs' c' log' sched') \<longrightarrow>
          [b. BatchStart b \<leftarrow> ext] = consecutiveGroups (nat concurrency) (drop (nat 0) allBlobs)
          \<and> (\<forall>a. 0 \<le> a \<and> a < int (length allBlobs) \<longrightarrow>
                Began a \<in> set ext \<and> Settled a \<in> set ext)"
    by auto
  then show ?thesis using w' ret by (intro exI [of _ ext]) simp
qed


text \<open>
  C7. Batching. In a run of \<open>indexSourceMhtmlFiles\<close> that is not a dry run and has a
  concurrency \<open>c \<ge> 1\<close>, however it ends: the batches that the loop has cut are, in this
  order, the first of the consecutive groups of size \<open>c\<close> of the listed documents, which
  together are the list, have between one and \<open>c\<close> members each, and \<open>c\<close> each but the
  last. Of two events about documents of different groups, the one of the earlier group
  stands first in the trace; and when a member of a group begins, every member of every
  group before it has settled already. When the run returns, the batches are all the
  groups, every document has begun and has settled, and with \<open>c = 2\<close> and five documents
  the sizes of the batches are 2, 2, 1. With \<open>c \<ge> 1\<close> the call always comes to an end.
\<close>

theorem batches_are_consecutive_groups:
  assumes conc: "1 \<le> concurrency"
      and listing: "listBlobsFlat ix (containerName src) (blobPrefix src) = Inr listed"
      and all: "allBlobs = filter (\<lambda>name. endsWith name ''.mhtml'') listed"
      and run: "indexSourceMhtmlFiles ix src concurrency False w = Some (out, w')"
  shows "trace w' = trace w @ added w w'
     \<and> prefix [b. BatchStart b \<leftarrow> added w w'] (consecutiveGroups (nat concurrency) allBlobs)
     \<and> concat (consecutiveGroups (nat concurrency) allBlobs) = allBlobs
     \<and> (\<forall>g\<in>set (butlast (consecutiveGroups (nat concurrency) allBlobs)).
           length g = nat concurrency)
     \<and> (\<forall>g\<in>set (consecutiveGroups (nat concurrency) allBlobs).
           1 \<le> length g \<and> length g \<le> nat concurrency)
     \<and> (\<forall>p q a b. p < length (added w w') \<and> q < length (added w w') \<and>
            itemOf (added w w' ! p) = Some a \<and> itemOf (added w w' ! q) = Some b \<and>
            a div concurrency < b div concurrency \<longrightarrow> p < q)
     \<and> (\<forall>q a b. q < length (added w w') \<and> added w w' ! q = Began b \<and>
            0 \<le> a \<and> a div concurrency < b div concurrency \<longrightarrow>
            (\<exists>p<q. added w w' ! p = Settled a))
     \<and> ((\<exists>rep. out = Returned rep) \<longrightarrow>
          [b. BatchStart b \<leftarrow> added w w'] = consecutiveGroups (nat concurrency) allBlobs
          \<and> (\<forall>a. 0 \<le> a \<and> a < int (length allBlobs) \<longrightarrow>
                Began a \<in> set (added w w') \<and> Settled a \<in> set (added w w'))
          \<and> (concurrency = 2 \<and> length allBlobs = 5 \<longrightarrow>
                map length [b. BatchStart b \<leftarrow> added w w'] = [2, 2, 1]))
     \<and> (\<forall>w0. \<exists>out0 w1. indexSourceMhtmlFiles ix src concurrency False w0 = Some (out0, w1))"
proof -
  from indexSource_trace [OF conc listing all run] obtain new where new:
    "trace w' = trace w @ new"
    "prefix [b. BatchStart b \<leftarrow> new] (consecutiveGroups (nat concurrency) allBlobs)"
    "sorted_wrt (notLater concurrency) new"
    "\<forall>b. Began b \<in> set new \<longrightarrow>
           (\<forall>a. 0 \<le> a \<and> a div concurrency < b div concurrency \<longrightarrow> Settled a \<in> set new)"
    "(\<exists>rep. out = Returned rep) \<longrightarrow>
          [b. BatchStart b \<leftarrow> new] = consecutiveGroups (nat concurrency) allBlobs
          \<and> (\<forall>a. 0 \<le> a \<and> a < int (length allBlobs) \<longrightarrow>
                Began a \<in> set new \<and> Settled a \<in> set new)"
    by blast
  have added: "added w w' = new" using new(1) by (simp add: added_def)
  have pos: "0 < nat concurrency" using conc by simp
  have order: "\<forall>p q a b. p < length new \<and> q < length new \<and> itemOf (new ! p) = Some a \<and>
            itemOf (new ! q) = Some b \<and> a div concurrency < b div concurrency \<longrightarrow> p < q"
  proof (intro allI impI)
    fix p q a b
    assume h: "p < length new \<and> q < length new \<and> itemOf (new ! p) = Some a \<and>
            itemOf (new ! q) = Some b \<and> a div concurrency < b div concurrency"
    show "p < q"
    proof (rule ccontr)
      assume "\<not> p < q"
      then consider "p = q" | "q < p" by linarith
      then show False
      proof cases
        case 1
        then show ?thesis using h by auto
      next
        case 2
        then have "notLater concurrency (new ! q) (new ! p)"
          using new(3) h by (simp add: sorted_wrt_iff_nth_less)
        then show ?thesis using h by (simp add: notLater_def)
      qed
    qed
  qed
  have before: "\<forall>q a b. q < length new \<and> new ! q = Began b \<and>
            0 \<le> a \<and> a div concurrency < b div concurrency \<longrightarrow> (\<exists>p<q. new ! p = Settled a)"
  proof (intro allI impI)
    fix q a b
    assume h: "q < length new \<and> new ! q = Began b \<and> 0 \<le> a \<and> a div concurrency < b div concurrency"
    then have "Began b \<in> set new" by (metis nth_mem)
    then have "Settled a \<in> set new" using new(4) h by blast
    then obtain p where p: "p < length new" "new ! p = Settled a"
      by (auto simp: in_set_conv_nth)
    then have "p < q" using order h by (metis itemOf.simps(2) itemOf.simps(5))
    then show "\<exists>p<q. new ! p = Settled a" using p by blast
  qed
  have five: "(\<exists>rep. out = Returned rep) \<longrightarrow> concurrency = 2 \<and> length allBlobs = 5 \<longrightarrow>
            map length [b. BatchStart b \<leftarrow> new] = [2, 2, 1]"
    using new(5) five_in_twos [of allBlobs] by auto
  have ends: "\<forall>w0. \<exists>out0 w1. indexSourceMhtmlFiles ix src concurrency False w0 = Some (out0, w1)"
    using indexSource_returns [OF conc] by blast
  show ?thesis
    unfolding added
    using new(1,2,5) order before five ends concat_consecutiveGroups [OF pos, of allBlobs]
      butlast_consecutiveGroups [of _ "nat concurrency" allBlobs]
      length_consecutiveGroups [of _ "nat concurrency" allBlobs]
    by blast
qed

lemma example_added:
  "added exampleStart \<lparr>consecutiveTimeouts = 0, trace = exampleQastTrace, schedule = [0, 0]\<rparr>
     = exampleQastTrace"
  by (simp add: added_def exampleStart_def)

theorem batches_are_consecutive_groups_witness:
  "(1::int) \<le> 2
   \<and> indexSourceMhtmlFiles exampleIndexer Qast 2 False exampleStart =
       Some (Returned exampleQastReport,
             \<lparr>consecutiveTimeouts = 0, trace = exampleQastTrace, schedule = [0, 0]\<rparr>)
   \<and> map length [b. BatchStart b \<leftarrow> exampleQastTrace] = [2, 2, 1]
   \<and> [b. BatchStart b \<leftarrow> exampleQastTrace] =
       consecutiveGroups 2 [''qast-mhtml/data/q1.mhtml'', ''qast-mhtml/data/q2.mhtml'',
          ''qast-mhtml/data/q3.mhtml'', ''qast-mhtml/data/q4.mhtml'', ''qast-mhtml/data/q5.mhtml'']"
proof -
  have h1: "(1::int) \<le> 2" by simp
  have h3: "[''qast-mhtml/data/q1.mhtml'', ''qast-mhtml/data/q2.mhtml'',
          ''qast-mhtml/data/q3.mhtml'', ''qast-mhtml/data/q4.mhtml'', ''qast-mhtml/data/q5.mhtml'']
      = filter (\<lambda>name. endsWith name ''.mhtml'')
          [''qast-mhtml/data/q1.mhtml'', ''qast-mhtml/data/q2.mhtml'',
           ''qast-mhtml/data/index.txt'', ''qast-mhtml/data/q3.mhtml'',
           ''qast-mhtml/data/q4.mhtml'', ''qast-mhtml/data/q5.mhtml'']"
    by (simp add: endsWith_def)
  note inst = batches_are_consecutive_groups [OF h1 example_listing h3 example_qast_run,
      unfolded example_added]
  have "\<exists>rep. Returned exampleQastReport = Returned rep" by blast
  note returned = inst [THEN conjunct2, THEN conjunct2, THEN conjunct2, THEN conjunct2,
      THEN conjunct2, THEN conjunct2, THEN conjunct2, THEN conjunct1, THEN mp, OF this]
  have groups: "[b. BatchStart b \<leftarrow> exampleQastTrace] =
       consecutiveGroups 2 [''qast-mhtml/data/q1.mhtml'', ''qast-mhtml/data/q2.mhtml'',
          ''qast-mhtml/data/q3.mhtml'', ''qast-mhtml/data/q4.mhtml'', ''qast-mhtml/data/q5.mhtml'']"
    using returned [THEN conjunct1] by simp
  have sizes: "map length [b. BatchStart b \<leftarrow> exampleQastTrace] = [2, 2, 1]"
    using returned [THEN conjunct2, THEN conjunct2] by simp
  show ?thesis using h1 example_qast_run groups sizes by blast
qed

section \<open>A member alone in its batch\<close>

text \<open>
  The retry loop is embedded twice: as the function \<open>retryLoop\<close> for a call on its own, and
  step by step in \<open>taskStep\<close> for the members of a batch. The two agree: a member that is
  alone in its batch and about to make attempt \<open>a\<close>, with a schedule that lets it run to
  its end, settles with the result of \<open>retryLoop\<close> from attempt \<open>a\<close> and the same counter, or
  the process exits where it exits in \<open>retryLoop\<close>.
\<close>

lemma awaitAll_settled:
  "list_all isDone ts \<Longrightarrow>
   awaitAll ix src container i batch ts c log sched = AllSettled [r. Done r \<leftarrow> ts] c log sched"
  by (cases sched) simp_all

lemma member_alone:
  assumes "retryLoop ceiling name src maxRetries script a c tr = (res, c', tr')"
      and "ceiling = MAX_CONSECUTIVE_TIMEOUTS ix" and "maxRetries = MAX_RETRIES ix"
      and "script = fetch ix src name" and "a \<le> maxRetries"
  shows "\<forall>log. \<exists>n L. \<forall>rest.
           awaitAll ix src container i [name] [Attempting a] c log (replicate n 0 @ rest) =
             (case res of Some r \<Rightarrow> AllSettled [r] c' (log @ L) rest
                        | None \<Rightarrow> Exited c' (log @ L))"
  using assms
proof (induction ceiling name src maxRetries script a c tr rule: retryLoop.induct)
  case (1 ceiling name indexType maxRetries script attempt c tr)
  note le = \<open>attempt \<le> maxRetries\<close>
  obtain c1 st where st: "afterAttempt ceiling name indexType maxRetries attempt c (script attempt)
      = (c1, st)"
    by (cases "afterAttempt ceiling name indexType maxRetries attempt c (script attempt)")
  then have st': "afterAttempt (MAX_CONSECUTIVE_TIMEOUTS ix) name indexType (MAX_RETRIES ix) attempt c
      (fetch ix indexType name attempt) = (c1, st)"
    using "1.prems" by simp
  show ?case
  proof (cases st)
    case (Return r)
    then have "res = Some r" "c' = c1"
      using "1.prems"(1) le st by (simp_all add: retryLoop.simps [of _ _ _ _ _ attempt])
    then have "\<forall>rest. awaitAll ix indexType container i [name] [Attempting attempt] c log
                 (replicate 1 0 @ rest) =
                 (case res of
                    Some r \<Rightarrow> AllSettled [r] c' (log @ [Ended i attempt (fetch ix indexType name attempt), Settled i]) rest
                  | None \<Rightarrow> Exited c' (log @ [Ended i attempt (fetch ix indexType name attempt), Settled i]))" for log
      using st' Return by (simp add: awaitAll_settled)
    then show ?thesis by blast
  next
    case (Retry ms)
    then have lt: "attempt < maxRetries" using st by (cases "script attempt") (auto split: if_splits)
    have rec: "retryLoop ceiling name indexType maxRetries script (attempt + 1) c1
                   (tr @ [Try attempt, Sleep ms]) = (res, c', tr')"
      using "1.prems"(1) le st Retry by (simp add: retryLoop.simps [of _ _ _ _ _ attempt])
    have "attempt + 1 \<le> maxRetries" using lt by simp
    from "1.IH"(1) [OF le st [symmetric] Retry rec "1.prems"(2,3,4) this]
    have ih: "\<forall>log. \<exists>n L. \<forall>rest.
           awaitAll ix indexType container i [name] [Attempting (attempt + 1)] c1 log
             (replicate n 0 @ rest) =
             (case res of Some r \<Rightarrow> AllSettled [r] c' (log @ L) rest
                        | None \<Rightarrow> Exited c' (log @ L))" .
    show ?thesis
    proof
      fix log
      let ?seen = "[Ended i attempt (fetch ix indexType name attempt), Attempt i (attempt + 1)]"
      from ih obtain n L where nL: "\<forall>rest.
           awaitAll ix indexType container i [name] [Attempting (attempt + 1)] c1
             (log @ ?seen) (replicate n 0 @ rest) =
             (case res of Some r \<Rightarrow> AllSettled [r] c' ((log @ ?seen) @ L) rest
                        | None \<Rightarrow> Exited c' ((log @ ?seen) @ L))" by blast
      have "\<forall>rest. awaitAll ix indexType container i [name] [Attempting attempt] c log
                 (replicate (Suc (Suc n)) 0 @ rest) =
              (case res of Some r \<Rightarrow> AllSettled [r] c' (log @ (?seen @ L)) rest
                        | None \<Rightarrow> Exited c' (log @ (?seen @ L)))"
        using st' Retry lt nL "1.prems"(3) by (cases res) (simp_all add: loopHead_def)
      then show "\<exists>n L. \<forall>rest.
           awaitAll ix indexType container i [name] [Attempting attempt] c log
             (replicate n 0 @ rest) =
             (case res of Some r \<Rightarrow> AllSettled [r] c' (log @ L) rest
                        | None \<Rightarrow> Exited c' (log @ L))" by blast
    qed
  next
    case FallThrough
    then have last: "\<not> attempt < maxRetries"
      using st by (cases "script attempt") (auto split: if_splits)
    have "retryLoop ceiling name indexType maxRetries script (attempt + 1) c1
                   (tr @ [Try attempt]) = (res, c', tr')"
      using "1.prems"(1) le st FallThrough by (simp add: retryLoop.simps [of _ _ _ _ _ attempt])
    then have "res = Some (retriesExhausted name indexType maxRetries)" "c' = c1"
      using last by (simp_all add: retryLoop.simps [of _ _ _ _ _ "attempt + 1"])
    then have "\<forall>rest. awaitAll ix indexType container i [name] [Attempting attempt] c log
                 (replicate 1 0 @ rest) =
                 (case res of
                    Some r \<Rightarrow> AllSettled [r] c' (log @ [Ended i attempt (fetch ix indexType name attempt), Settled i]) rest
                  | None \<Rightarrow> Exited c' (log @ [Ended i attempt (fetch ix indexType name attempt), Settled i]))" for log
      using st' FallThrough last "1.prems"(3) by (simp add: awaitAll_settled loopHead_def)
    then show ?thesis by blast
  next
    case ProcessExit
    then have "res = None" "c' = c1"
      using "1.prems"(1) le st by (simp_all add: retryLoop.simps [of _ _ _ _ _ attempt])
    then have "\<forall>rest. awaitAll ix indexType container i [name] [Attempting attempt] c log
                 (replicate 1 0 @ rest) =
                 (case res of
                    Some r \<Rightarrow> AllSettled [r] c' (log @ [Ended i attempt (fetch ix indexType name attempt)]) rest
                  | None \<Rightarrow> Exited c' (log @ [Ended i attempt (fetch ix indexType name attempt)]))" for log
      using st' ProcessExit by simp
    then show ?thesis by blast
  qed
qed

lemma member_alone_indexMhtmlFile:
  assumes "indexMhtmlFile (MAX_CONSECUTIVE_TIMEOUTS ix) c name src (MAX_RETRIES ix)
             (fetch ix src name) = (res, c', tr)"
      and "1 \<le> MAX_RETRIES ix"
  shows "\<exists>n L. \<forall>rest.
           awaitAll ix src container i [name] [Attempting 1] c log (replicate n 0 @ rest) =
             (case res of Some r \<Rightarrow> AllSettled [r] c' (log @ L) rest
                        | None \<Rightarrow> Exited c' (log @ L))"
  using member_alone [OF assms(1) [unfolded indexMhtmlFile_def] refl refl refl assms(2)]
  by blast

end
